theory Spec2Isabelle
  imports Complex_Main "HOL-Library.Multiset"
begin

section \<open>Grid and constants\<close>

text \<open>
  The constants of \<^verbatim>\<open>main.cpp\<close>. C++ \<^verbatim>\<open>int\<close> values are modelled as
  unbounded \<open>int\<close>: every coordinate, length, counter and score of the game stays far
  below \<open>2 ^ 31\<close>, and signed overflow is undefined behaviour in C++, so the model
  describes exactly the executions that have a defined meaning.
\<close>

definition TILE_SIZE :: int where "TILE_SIZE = 32"
definition GRID_WIDTH :: int where "GRID_WIDTH = 25"
definition GRID_HEIGHT :: int where "GRID_HEIGHT = 18"

definition SCREEN_W :: int where "SCREEN_W = GRID_WIDTH * TILE_SIZE"
definition SCREEN_H :: int where "SCREEN_H = GRID_HEIGHT * TILE_SIZE"

definition START_LIVES :: int where "START_LIVES = 3"
definition RESPAWN_DELAY :: int where "RESPAWN_DELAY = 180"
definition DEATH_FLASH_TIME :: int where "DEATH_FLASH_TIME = 30"

datatype TunnelDirection = HORIZONTAL | VERTICAL | NONE

text \<open>
  C++ integer division truncates towards zero, and so does the conversion of a
  \<^verbatim>\<open>float\<close> to \<^verbatim>\<open>int\<close>; HOL's \<open>div\<close> and \<open>floor\<close> round down.
\<close>

definition cdiv :: "int \<Rightarrow> int \<Rightarrow> int" where
  "cdiv a b = sgn a * sgn b * (\<bar>a\<bar> div \<bar>b\<bar>)"

definition float_to_int :: "rat \<Rightarrow> int" where
  "float_to_int q = (if 0 \<le> q then \<lfloor>q\<rfloor> else \<lceil>q\<rceil>)"

section \<open>Tunnels\<close>

text \<open>
  \<^verbatim>\<open>struct Tunnel\<close>. The member \<^verbatim>\<open>length\<close> is named \<open>length_t\<close> here, since
  \<open>length\<close> is the length of a HOL list. \<open>mkTunnel\<close> is the constructor, with the
  default member initialisers \<^verbatim>\<open>dug = true\<close> and \<^verbatim>\<open>activated = false\<close>.
\<close>

record Tunnel =
  startX :: int
  startY :: int
  length_t :: int
  direction :: TunnelDirection
  dug :: bool
  activated :: bool

definition mkTunnel :: "int \<Rightarrow> int \<Rightarrow> int \<Rightarrow> TunnelDirection \<Rightarrow> Tunnel" where
  "mkTunnel x y len dir =
     \<lparr>startX = x, startY = y, length_t = len, direction = dir, dug = True, activated = False\<rparr>"

definition Contains :: "Tunnel \<Rightarrow> int \<Rightarrow> int \<Rightarrow> bool" where
  "Contains t x y =
     (if direction t = HORIZONTAL then
        y = startY t \<and> x \<ge> startX t \<and> x < startX t + length_t t
      else if direction t = VERTICAL then
        x = startX t \<and> y \<ge> startY t \<and> y < startY t + length_t t
      else False)"

definition Intersects :: "Tunnel \<Rightarrow> Tunnel \<Rightarrow> bool" where
  "Intersects t other =
     (if direction t = HORIZONTAL \<and> direction other = HORIZONTAL then
        (if startY t \<noteq> startY other then False
         else \<not> (startX t + length_t t \<le> startX other
                 \<or> startX other + length_t other \<le> startX t))
      else if direction t = VERTICAL \<and> direction other = VERTICAL then
        (if startX t \<noteq> startX other then False
         else \<not> (startY t + length_t t \<le> startY other
                 \<or> startY other + length_t other \<le> startY t))
      else
        (if direction t = HORIZONTAL then
           (startX other \<ge> startX t \<and> startX other < startX t + length_t t) \<and>
           (startY t \<ge> startY other \<and> startY t < startY other + length_t other)
         else
           (startX t \<ge> startX other \<and> startX t < startX other + length_t other) \<and>
           (startY other \<ge> startY t \<and> startY other < startY t + length_t t)))"

subsection \<open>Validity of a candidate\<close>

text \<open>
  The loop of \<^verbatim>\<open>World::IsValidTunnel\<close> over the tunnels accepted so far: it returns
  at the first tunnel the candidate intersects.
\<close>

fun intersects_existing :: "Tunnel \<Rightarrow> Tunnel list \<Rightarrow> bool" where
  "intersects_existing newTunnel [] = False"
| "intersects_existing newTunnel (tunnel # rest) =
     (if Intersects newTunnel tunnel then True else intersects_existing newTunnel rest)"

definition IsValidTunnel :: "Tunnel list \<Rightarrow> Tunnel \<Rightarrow> bool" where
  "IsValidTunnel tunnels newTunnel =
     (if direction newTunnel = HORIZONTAL then
        (if startX newTunnel < 1 \<or> startX newTunnel + length_t newTunnel \<ge> GRID_WIDTH - 1 \<or>
            startY newTunnel < 1 \<or> startY newTunnel \<ge> GRID_HEIGHT - 1
         then False
         else \<not> intersects_existing newTunnel tunnels)
      else
        (if startX newTunnel < 1 \<or> startX newTunnel \<ge> GRID_WIDTH - 1 \<or>
            startY newTunnel < 1 \<or> startY newTunnel + length_t newTunnel \<ge> GRID_HEIGHT - 1
         then False
         else \<not> intersects_existing newTunnel tunnels))"

subsection \<open>Layout generation\<close>

text \<open>
  \<^verbatim>\<open>rand()\<close> is the only input of \<^verbatim>\<open>World::CreateTunnels\<close>. The generator is
  modelled as the sequence \<open>rnd\<close> of the values it returns (non-negative, as the C
  standard says) together with the number \<open>k\<close> of calls made so far; every call reads
  \<open>rnd k\<close> and advances \<open>k\<close>. On non-negative operands \<^verbatim>\<open>%\<close> is \<open>mod\<close>.

  Each \<^verbatim>\<open>while\<close> loop is a recursive function over the loop's variables
  (\<^verbatim>\<open>tunnels\<close>, \<^verbatim>\<open>attempts\<close>) and the generator's position; it returns their
  values when the loop exits.
\<close>

function horizontal_loop ::
  "(nat \<Rightarrow> nat) \<Rightarrow> nat \<Rightarrow> Tunnel list \<Rightarrow> nat \<Rightarrow> Tunnel list \<times> nat \<times> nat" where
  "horizontal_loop rnd k tunnels attempts =
     (if length tunnels < 4 \<and> attempts < 50 then
        (let x = int (rnd k) mod (GRID_WIDTH - 10) + 2;
             y = int (rnd (k + 1)) mod (GRID_HEIGHT - 4) + 2;
             len = int (rnd (k + 2)) mod 5 + 4;
             newTunnel = mkTunnel x y len HORIZONTAL
         in horizontal_loop rnd (k + 3)
              (if IsValidTunnel tunnels newTunnel then tunnels @ [newTunnel] else tunnels)
              (attempts + 1))
      else (tunnels, attempts, k))"
  by pat_completeness auto
termination
  by (relation "measure (\<lambda>(rnd, k, tunnels, attempts). 50 - attempts)") auto

function vertical_loop ::
  "(nat \<Rightarrow> nat) \<Rightarrow> nat \<Rightarrow> Tunnel list \<Rightarrow> nat \<Rightarrow> Tunnel list \<times> nat \<times> nat" where
  "vertical_loop rnd k tunnels attempts =
     (if length tunnels < 8 \<and> attempts < 50 then
        (let x = int (rnd k) mod (GRID_WIDTH - 4) + 2;
             y = int (rnd (k + 1)) mod (GRID_HEIGHT - 10) + 2;
             len = int (rnd (k + 2)) mod 5 + 4;
             newTunnel = mkTunnel x y len VERTICAL
         in vertical_loop rnd (k + 3)
              (if IsValidTunnel tunnels newTunnel then tunnels @ [newTunnel] else tunnels)
              (attempts + 1))
      else (tunnels, attempts, k))"
  by pat_completeness auto
termination
  by (relation "measure (\<lambda>(rnd, k, tunnels, attempts). 50 - attempts)") auto

text \<open>
  \<^verbatim>\<open>World::CreateTunnels\<close>: clear the list, run the horizontal loop, reset
  \<^verbatim>\<open>attempts\<close>, run the vertical loop. The result is the new tunnel list and the
  generator's position.
\<close>

definition CreateTunnels :: "(nat \<Rightarrow> nat) \<Rightarrow> nat \<Rightarrow> Tunnel list \<times> nat" where
  "CreateTunnels rnd k =
     (case horizontal_loop rnd k [] 0 of
        (tunnels1, attempts1, k1) \<Rightarrow>
          (case vertical_loop rnd k1 tunnels1 0 of
             (tunnels2, attempts2, k2) \<Rightarrow> (tunnels2, k2)))"


section \<open>Geometry\<close>

text \<open>
  raylib's \<^verbatim>\<open>Vector2\<close> and \<^verbatim>\<open>Rectangle\<close>. A \<^verbatim>\<open>float\<close> is modelled as a rational
  number and rounding is not modelled. On the values patrol movement produces (multiples
  of \<open>1/2\<close> below the screen size) \<^verbatim>\<open>float\<close> arithmetic is exact, so nothing is lost
  there; chase movement adds \<^verbatim>\<open>1.2f\<close>, which a \<^verbatim>\<open>float\<close> only approximates.
\<close>

record Vector2 =
  vec_x :: rat
  vec_y :: rat

record Rectangle =
  rec_x :: rat
  rec_y :: rat
  rec_width :: rat
  rec_height :: rat

definition MakeNormalizedRect :: "rat \<Rightarrow> rat \<Rightarrow> rat \<Rightarrow> rat \<Rightarrow> Rectangle" where
  "MakeNormalizedRect x y w h =
     (let r0 = \<lparr>rec_x = x, rec_y = y, rec_width = w, rec_height = h\<rparr>;
          r1 = (if rec_width r0 < 0
                then r0\<lparr>rec_x := rec_x r0 + rec_width r0, rec_width := rec_width r0 * (- 1)\<rparr>
                else r0);
          r2 = (if rec_height r1 < 0
                then r1\<lparr>rec_y := rec_y r1 + rec_height r1, rec_height := rec_height r1 * (- 1)\<rparr>
                else r1)
      in r2)"

text \<open>
  Modelled from the spec: \<^verbatim>\<open>CheckCollisionRecs\<close> belongs to raylib and is not among the
  sources. The spec calls it the axis-aligned rectangle overlap test. The functions
  below that call it take the test as the parameter \<open>coll\<close>, and the theorems about them
  hold for every test; \<open>CheckCollisionRecs\<close> is the test used to run them on examples.
\<close>

definition CheckCollisionRecs :: "Rectangle \<Rightarrow> Rectangle \<Rightarrow> bool" where
  "CheckCollisionRecs rec1 rec2 \<longleftrightarrow>
     (rec_x rec1 < rec_x rec2 + rec_width rec2 \<and> rec_x rec1 + rec_width rec1 > rec_x rec2) \<and>
     (rec_y rec1 < rec_y rec2 + rec_height rec2 \<and> rec_y rec1 + rec_height rec1 > rec_y rec2)"

section \<open>Game objects\<close>

text \<open>
  \<^verbatim>\<open>class Player\<close>; the member \<^verbatim>\<open>size\<close> is named \<open>psize\<close> (\<open>size\<close> is a HOL
  constant). \<^verbatim>\<open>Player::Move\<close> reads the keyboard and \<^verbatim>\<open>Player::Draw\<close> draws; neither
  is needed below.
\<close>

record Player =
  pos :: Vector2
  psize :: int
  speed :: rat
  alive :: bool
  lives :: int
  hasHarpoon :: bool
  harpoonDir :: Vector2
  harpoonTimer :: int
  score :: int
  deathFlashTimer :: int

definition mkPlayer :: "int \<Rightarrow> int \<Rightarrow> Player" where
  "mkPlayer x y =
     \<lparr>pos = \<lparr>vec_x = of_int x, vec_y = of_int y\<rparr>, psize = TILE_SIZE, speed = 2, alive = True,
      lives = START_LIVES, hasHarpoon = False, harpoonDir = \<lparr>vec_x = 1, vec_y = 0\<rparr>,
      harpoonTimer = 0, score = 0, deathFlashTimer = 0\<rparr>"

definition Player_ResetTo :: "int \<Rightarrow> int \<Rightarrow> Player \<Rightarrow> Player" where
  "Player_ResetTo x y p =
     p\<lparr>pos := \<lparr>vec_x = of_int x, vec_y = of_int y\<rparr>,
       alive := True,
       hasHarpoon := False,
       harpoonTimer := 0,
       harpoonDir := \<lparr>vec_x = 1, vec_y = 0\<rparr>,
       deathFlashTimer := 0\<rparr>"

definition Player_Bounds :: "Player \<Rightarrow> Rectangle" where
  "Player_Bounds p =
     \<lparr>rec_x = vec_x (pos p), rec_y = vec_y (pos p),
      rec_width = of_int (psize p), rec_height = of_int (psize p)\<rparr>"

text \<open>
  \<^verbatim>\<open>class Monster\<close> and \<^verbatim>\<open>class Dragon\<close> declare the same data members, so one
  record holds the state of either; the member functions of the two classes are
  modelled separately, each from its own text. The members \<^verbatim>\<open>pos\<close>, \<^verbatim>\<open>size\<close>,
  \<^verbatim>\<open>alive\<close> and \<^verbatim>\<open>direction\<close> carry the prefix \<open>e_\<close> to keep them apart from the
  player's and the tunnel's. \<^verbatim>\<open>homeTunnel\<close> is a pointer to an element of
  \<^verbatim>\<open>World::tunnels\<close>; it is modelled as the index of that element.

  \<^verbatim>\<open>speed\<close> and \<^verbatim>\<open>chaseSpeed\<close> are set by default member initialisers and never
  assigned; they are constants of each class.
\<close>

record Enemy =
  e_pos :: Vector2
  e_size :: int
  e_alive :: bool
  inTunnel :: bool
  chasing :: bool
  homeTunnel :: nat
  e_direction :: int

definition Monster_speed :: rat where "Monster_speed = 1 / 2"
definition Monster_chaseSpeed :: rat where "Monster_chaseSpeed = 12 / 10"
definition Dragon_speed :: rat where "Dragon_speed = 1 / 2"
definition Dragon_chaseSpeed :: rat where "Dragon_chaseSpeed = 15 / 10"

definition Monster :: "int \<Rightarrow> int \<Rightarrow> nat \<Rightarrow> Enemy" where
  "Monster x y tunnel =
     \<lparr>e_pos = \<lparr>vec_x = of_int x, vec_y = of_int y\<rparr>, e_size = TILE_SIZE, e_alive = True,
      inTunnel = True, chasing = False, homeTunnel = tunnel, e_direction = 1\<rparr>"

definition Dragon :: "int \<Rightarrow> int \<Rightarrow> nat \<Rightarrow> Enemy" where
  "Dragon x y tunnel =
     \<lparr>e_pos = \<lparr>vec_x = of_int x, vec_y = of_int y\<rparr>, e_size = TILE_SIZE, e_alive = True,
      inTunnel = True, chasing = False, homeTunnel = tunnel, e_direction = 1\<rparr>"

text \<open>
  \<^verbatim>\<open>MoveInTunnel\<close>. The first argument is the tunnel \<^verbatim>\<open>homeTunnel\<close> points to.
\<close>

definition Monster_MoveInTunnel :: "Tunnel \<Rightarrow> Enemy \<Rightarrow> Enemy" where
  "Monster_MoveInTunnel home m =
     (if \<not> e_alive m \<or> \<not> inTunnel m then m
      else if direction home = HORIZONTAL then
        (let m1 = m\<lparr>e_pos := (e_pos m)\<lparr>vec_x := vec_x (e_pos m) + Monster_speed * of_int (e_direction m)\<rparr>\<rparr>;
             gridX = cdiv (float_to_int (vec_x (e_pos m1))) TILE_SIZE
         in if gridX \<le> startX home \<or> gridX \<ge> startX home + length_t home - 1
            then m1\<lparr>e_direction := e_direction m1 * (- 1)\<rparr>
            else m1)
      else
        (let m1 = m\<lparr>e_pos := (e_pos m)\<lparr>vec_y := vec_y (e_pos m) + Monster_speed * of_int (e_direction m)\<rparr>\<rparr>;
             gridY = cdiv (float_to_int (vec_y (e_pos m1))) TILE_SIZE
         in if gridY \<le> startY home \<or> gridY \<ge> startY home + length_t home - 1
            then m1\<lparr>e_direction := e_direction m1 * (- 1)\<rparr>
            else m1))"

definition Dragon_MoveInTunnel :: "Tunnel \<Rightarrow> Enemy \<Rightarrow> Enemy" where
  "Dragon_MoveInTunnel home d =
     (if \<not> e_alive d \<or> \<not> inTunnel d then d
      else if direction home = HORIZONTAL then
        (let d1 = d\<lparr>e_pos := (e_pos d)\<lparr>vec_x := vec_x (e_pos d) + Dragon_speed * of_int (e_direction d)\<rparr>\<rparr>;
             gridX = cdiv (float_to_int (vec_x (e_pos d1))) TILE_SIZE
         in if gridX \<le> startX home \<or> gridX \<ge> startX home + length_t home - 1
            then d1\<lparr>e_direction := e_direction d1 * (- 1)\<rparr>
            else d1)
      else
        (let d1 = d\<lparr>e_pos := (e_pos d)\<lparr>vec_y := vec_y (e_pos d) + Dragon_speed * of_int (e_direction d)\<rparr>\<rparr>;
             gridY = cdiv (float_to_int (vec_y (e_pos d1))) TILE_SIZE
         in if gridY \<le> startY home \<or> gridY \<ge> startY home + length_t home - 1
            then d1\<lparr>e_direction := e_direction d1 * (- 1)\<rparr>
            else d1))"

text \<open>\<^verbatim>\<open>MoveTowards\<close>: the x axis first, then the y axis.\<close>

definition Monster_MoveTowards :: "Vector2 \<Rightarrow> Enemy \<Rightarrow> Enemy" where
  "Monster_MoveTowards target m =
     (if \<not> e_alive m \<or> inTunnel m then m
      else
        (let currentSpeed = (if chasing m then Monster_chaseSpeed else Monster_speed);
             m1 = (if vec_x target > vec_x (e_pos m)
                   then m\<lparr>e_pos := (e_pos m)\<lparr>vec_x := vec_x (e_pos m) + currentSpeed\<rparr>\<rparr>
                   else if vec_x target < vec_x (e_pos m)
                   then m\<lparr>e_pos := (e_pos m)\<lparr>vec_x := vec_x (e_pos m) - currentSpeed\<rparr>\<rparr>
                   else m);
             m2 = (if vec_y target > vec_y (e_pos m1)
                   then m1\<lparr>e_pos := (e_pos m1)\<lparr>vec_y := vec_y (e_pos m1) + currentSpeed\<rparr>\<rparr>
                   else if vec_y target < vec_y (e_pos m1)
                   then m1\<lparr>e_pos := (e_pos m1)\<lparr>vec_y := vec_y (e_pos m1) - currentSpeed\<rparr>\<rparr>
                   else m1)
         in m2))"

definition Dragon_MoveTowards :: "Vector2 \<Rightarrow> Enemy \<Rightarrow> Enemy" where
  "Dragon_MoveTowards target d =
     (if \<not> e_alive d \<or> inTunnel d then d
      else
        (let currentSpeed = (if chasing d then Dragon_chaseSpeed else Dragon_speed);
             d1 = (if vec_x target > vec_x (e_pos d)
                   then d\<lparr>e_pos := (e_pos d)\<lparr>vec_x := vec_x (e_pos d) + currentSpeed\<rparr>\<rparr>
                   else if vec_x target < vec_x (e_pos d)
                   then d\<lparr>e_pos := (e_pos d)\<lparr>vec_x := vec_x (e_pos d) - currentSpeed\<rparr>\<rparr>
                   else d);
             d2 = (if vec_y target > vec_y (e_pos d1)
                   then d1\<lparr>e_pos := (e_pos d1)\<lparr>vec_y := vec_y (e_pos d1) + currentSpeed\<rparr>\<rparr>
                   else if vec_y target < vec_y (e_pos d1)
                   then d1\<lparr>e_pos := (e_pos d1)\<lparr>vec_y := vec_y (e_pos d1) - currentSpeed\<rparr>\<rparr>
                   else d1)
         in d2))"

text \<open>\<^verbatim>\<open>Monster::Bounds\<close> and \<^verbatim>\<open>Dragon::Bounds\<close> have the same text.\<close>

definition Enemy_Bounds :: "Enemy \<Rightarrow> Rectangle" where
  "Enemy_Bounds e =
     \<lparr>rec_x = vec_x (e_pos e), rec_y = vec_y (e_pos e),
      rec_width = of_int (e_size e), rec_height = of_int (e_size e)\<rparr>"

text \<open>
  The tile an enemy stands on, as \<^verbatim>\<open>MoveInTunnel\<close> computes it:
  \<^verbatim>\<open>static_cast<int>(pos.x) / TILE_SIZE\<close>.
\<close>

definition gridX_of :: "Enemy \<Rightarrow> int" where
  "gridX_of e = cdiv (float_to_int (vec_x (e_pos e))) TILE_SIZE"

definition gridY_of :: "Enemy \<Rightarrow> int" where
  "gridY_of e = cdiv (float_to_int (vec_y (e_pos e))) TILE_SIZE"

record Fruit =
  f_pos :: Vector2
  f_size :: int
  collected :: bool

definition mkFruit :: "int \<Rightarrow> int \<Rightarrow> Fruit" where
  "mkFruit x y = \<lparr>f_pos = \<lparr>vec_x = of_int x, vec_y = of_int y\<rparr>, f_size = TILE_SIZE, collected = False\<rparr>"

definition Fruit_Bounds :: "Fruit \<Rightarrow> Rectangle" where
  "Fruit_Bounds f =
     \<lparr>rec_x = vec_x (f_pos f), rec_y = vec_y (f_pos f),
      rec_width = of_int (f_size f), rec_height = of_int (f_size f)\<rparr>"


section \<open>The world\<close>

datatype GameState = SPLASH | PLAYING | GAMEOVER | WIN

text \<open>
  \<^verbatim>\<open>struct World\<close>. The \<^verbatim>\<open>dug\<close> mask is written by the update and read only by
  drawing; it is left out. \<open>highscore_file\<close> is the content of \<^verbatim>\<open>highscore.txt\<close>
  (\<open>None\<close> when the file does not exist).
\<close>

record World =
  player :: Player
  monsters :: "Enemy list"
  dragons :: "Enemy list"
  tunnels :: "Tunnel list"
  fruit :: Fruit
  state :: GameState
  highScore :: int
  respawnTimer :: int
  highscore_file :: "int option"

text \<open>
  The world as its default member initialisers build it, beside a high-score file with
  the content \<open>file\<close>, and \<^verbatim>\<open>World::LoadHighScore\<close>.
\<close>

definition mkWorld :: "int option \<Rightarrow> World" where
  "mkWorld file =
     \<lparr>player = mkPlayer 100 100, monsters = [], dragons = [], tunnels = [],
      fruit = mkFruit (cdiv SCREEN_W 2 - cdiv TILE_SIZE 2) (cdiv SCREEN_H 2 - cdiv TILE_SIZE 2),
      state = SPLASH, highScore = 0, respawnTimer = 0, highscore_file = file\<rparr>"

definition LoadHighScore :: "World \<Rightarrow> World" where
  "LoadHighScore w = (case highscore_file w of None \<Rightarrow> w | Some v \<Rightarrow> w\<lparr>highScore := v\<rparr>)"

text \<open>
  \<^verbatim>\<open>World::SaveHighScore\<close>. Opening the file for writing can fail; \<open>can_open\<close> says
  whether it succeeds in this call.
\<close>

definition SaveHighScore :: "bool \<Rightarrow> World \<Rightarrow> World" where
  "SaveHighScore can_open w =
     (if score (player w) > highScore w then
        (let w1 = w\<lparr>highScore := score (player w)\<rparr>
         in if can_open then w1\<lparr>highscore_file := Some (highScore w1)\<rparr> else w1)
      else w)"

subsection \<open>Level set-up\<close>

text \<open>
  The two placement loops of \<^verbatim>\<open>World::ResetLevel\<close>. \<open>i\<close> is the index of the tunnel the
  loop is at, so that \<^verbatim>\<open>&tunnel\<close> is \<open>i\<close>. In the dragons' loop \<^verbatim>\<open>rand()\<close> is called
  only when the tunnel has no monster (\<^verbatim>\<open>&&\<close> evaluates its right operand only then).
\<close>

fun place_monsters ::
  "(nat \<Rightarrow> nat) \<Rightarrow> nat \<Rightarrow> nat \<Rightarrow> Tunnel list \<Rightarrow> Enemy list \<Rightarrow> Enemy list \<times> nat" where
  "place_monsters rnd k i [] ms = (ms, k)"
| "place_monsters rnd k i (tunnel # rest) ms =
     (if rnd k mod 2 = 0 then
        (let x = (if direction tunnel = HORIZONTAL
                  then (startX tunnel + cdiv (length_t tunnel) 2) * TILE_SIZE
                  else startX tunnel * TILE_SIZE);
             y = (if direction tunnel = HORIZONTAL
                  then startY tunnel * TILE_SIZE
                  else (startY tunnel + cdiv (length_t tunnel) 2) * TILE_SIZE)
         in place_monsters rnd (k + 1) (i + 1) rest (ms @ [Monster x y i]))
      else place_monsters rnd (k + 1) (i + 1) rest ms)"

fun hasMonster :: "nat \<Rightarrow> Enemy list \<Rightarrow> bool" where
  "hasMonster i [] = False"
| "hasMonster i (monster # rest) = (if homeTunnel monster = i then True else hasMonster i rest)"

fun place_dragons ::
  "(nat \<Rightarrow> nat) \<Rightarrow> nat \<Rightarrow> nat \<Rightarrow> Tunnel list \<Rightarrow> Enemy list \<Rightarrow> Enemy list \<Rightarrow> Enemy list \<times> nat" where
  "place_dragons rnd k i [] ms ds = (ds, k)"
| "place_dragons rnd k i (tunnel # rest) ms ds =
     (if hasMonster i ms then place_dragons rnd k (i + 1) rest ms ds
      else if rnd k mod 2 = 0 then
        (let x = (if direction tunnel = HORIZONTAL
                  then (startX tunnel + cdiv (length_t tunnel) 2) * TILE_SIZE
                  else startX tunnel * TILE_SIZE);
             y = (if direction tunnel = HORIZONTAL
                  then startY tunnel * TILE_SIZE
                  else (startY tunnel + cdiv (length_t tunnel) 2) * TILE_SIZE)
         in place_dragons rnd (k + 1) (i + 1) rest ms (ds @ [Dragon x y i]))
      else place_dragons rnd (k + 1) (i + 1) rest ms ds)"

text \<open>
  \<^verbatim>\<open>World::ResetLevel\<close>, without the \<^verbatim>\<open>dug\<close> mask: reset the player, clear the
  enemies, generate the tunnels, clear every \<^verbatim>\<open>activated\<close> flag, place the monsters and
  then the dragons, put the fruit back. It returns the world and the generator's position.
\<close>

definition ResetLevel :: "(nat \<Rightarrow> nat) \<Rightarrow> nat \<Rightarrow> World \<Rightarrow> World \<times> nat" where
  "ResetLevel rnd k w =
     (case CreateTunnels rnd k of
        (created, k1) \<Rightarrow>
          (let ts = map (\<lambda>tunnel. tunnel\<lparr>activated := False\<rparr>) created
           in case place_monsters rnd k1 0 ts [] of
                (ms, k2) \<Rightarrow>
                  (case place_dragons rnd k2 0 ts ms [] of
                     (ds, k3) \<Rightarrow>
                       (w\<lparr>player := Player_ResetTo 100 100 (player w),
                          monsters := ms,
                          dragons := ds,
                          tunnels := ts,
                          fruit := (fruit w)\<lparr>collected := False\<rparr>\<rparr>,
                        k3))))"

subsection \<open>Tunnel lookup and activation\<close>

text \<open>
  \<^verbatim>\<open>World::GetTunnelAt\<close> returns a pointer to the first tunnel that contains the tile,
  or \<^verbatim>\<open>nullptr\<close>: here the index of that tunnel, or \<open>None\<close>.
\<close>

fun GetTunnelAt_from :: "nat \<Rightarrow> Tunnel list \<Rightarrow> int \<Rightarrow> int \<Rightarrow> nat option" where
  "GetTunnelAt_from i [] gridX gridY = None"
| "GetTunnelAt_from i (tunnel # rest) gridX gridY =
     (if Contains tunnel gridX gridY then Some i else GetTunnelAt_from (i + 1) rest gridX gridY)"

definition GetTunnelAt :: "Tunnel list \<Rightarrow> int \<Rightarrow> int \<Rightarrow> nat option" where
  "GetTunnelAt ts gridX gridY = GetTunnelAt_from 0 ts gridX gridY"

text \<open>
  \<^verbatim>\<open>World::CheckTunnelActivation\<close>. \<open>alert\<close> is one of the two inner loops (they have
  the same text for monsters and dragons), \<open>activate_tunnel\<close> the body of the outer loop
  at the tunnel of index \<open>i\<close>, and the outer loop runs over the indices in order.
\<close>

fun alert :: "nat \<Rightarrow> Enemy list \<Rightarrow> Enemy list" where
  "alert i [] = []"
| "alert i (m # rest) =
     (if homeTunnel m = i then m\<lparr>inTunnel := False, chasing := True\<rparr> else m) # alert i rest"

definition activate_tunnel :: "int \<Rightarrow> int \<Rightarrow> nat \<Rightarrow> World \<Rightarrow> World" where
  "activate_tunnel playerGridX playerGridY i w =
     (let tunnel = tunnels w ! i
      in if Contains tunnel playerGridX playerGridY \<and> \<not> activated tunnel then
           w\<lparr>tunnels := (tunnels w)[i := tunnel\<lparr>activated := True\<rparr>],
             monsters := alert i (monsters w),
             dragons := alert i (dragons w)\<rparr>
         else w)"

definition CheckTunnelActivation :: "World \<Rightarrow> World" where
  "CheckTunnelActivation w =
     (let playerGridX = float_to_int (vec_x (pos (player w)) / of_int TILE_SIZE);
          playerGridY = float_to_int (vec_y (pos (player w)) / of_int TILE_SIZE)
      in fold (activate_tunnel playerGridX playerGridY) [0 ..< length (tunnels w)] w)"

subsection \<open>Collisions, harpoon and death in a frame\<close>

text \<open>
  The blocks of the update in \<^verbatim>\<open>main\<close> that follow the enemies' movement, in the
  order of the source. Each loop over the enemies is a recursive function.
\<close>

fun hits_player :: "(Rectangle \<Rightarrow> Rectangle \<Rightarrow> bool) \<Rightarrow> Enemy list \<Rightarrow> Player \<Rightarrow> Player" where
  "hits_player coll [] p = p"
| "hits_player coll (e # rest) p =
     hits_player coll rest
       (if e_alive e \<and> coll (Player_Bounds p) (Enemy_Bounds e) then p\<lparr>alive := False\<rparr> else p)"

definition player_collisions :: "(Rectangle \<Rightarrow> Rectangle \<Rightarrow> bool) \<Rightarrow> World \<Rightarrow> World" where
  "player_collisions coll w =
     (let w1 = w\<lparr>player := hits_player coll (monsters w) (player w)\<rparr>
      in w1\<lparr>player := hits_player coll (dragons w1) (player w1)\<rparr>)"

definition harpoonRect :: "Player \<Rightarrow> Rectangle" where
  "harpoonRect p =
     (if vec_x (harpoonDir p) \<noteq> 0 then
        (let w = vec_x (harpoonDir p) * 50
         in MakeNormalizedRect
              (vec_x (pos p) + of_int (cdiv (psize p) 2))
              (vec_y (pos p) + of_int (cdiv (psize p) 2) - 2)
              w 4)
      else
        (let h = vec_y (harpoonDir p) * 50
         in MakeNormalizedRect
              (vec_x (pos p) + of_int (cdiv (psize p) 2) - 2)
              (vec_y (pos p) + of_int (cdiv (psize p) 2))
              4 h))"

fun harpoon_monsters ::
  "(Rectangle \<Rightarrow> Rectangle \<Rightarrow> bool) \<Rightarrow> Rectangle \<Rightarrow> Enemy list \<Rightarrow> int \<Rightarrow> Enemy list \<times> int" where
  "harpoon_monsters coll r [] sc = ([], sc)"
| "harpoon_monsters coll r (m # rest) sc =
     (if e_alive m \<and> coll r (Enemy_Bounds m) then
        (case harpoon_monsters coll r rest (sc + 100) of
           (rest', sc') \<Rightarrow> (m\<lparr>e_alive := False\<rparr> # rest', sc'))
      else
        (case harpoon_monsters coll r rest sc of
           (rest', sc') \<Rightarrow> (m # rest', sc')))"

fun harpoon_dragons ::
  "(Rectangle \<Rightarrow> Rectangle \<Rightarrow> bool) \<Rightarrow> Rectangle \<Rightarrow> Enemy list \<Rightarrow> int \<Rightarrow> Enemy list \<times> int" where
  "harpoon_dragons coll r [] sc = ([], sc)"
| "harpoon_dragons coll r (d # rest) sc =
     (if e_alive d \<and> coll r (Enemy_Bounds d) then
        (case harpoon_dragons coll r rest (sc + 200) of
           (rest', sc') \<Rightarrow> (d\<lparr>e_alive := False\<rparr> # rest', sc'))
      else
        (case harpoon_dragons coll r rest sc of
           (rest', sc') \<Rightarrow> (d # rest', sc')))"

definition handle_harpoon :: "(Rectangle \<Rightarrow> Rectangle \<Rightarrow> bool) \<Rightarrow> World \<Rightarrow> World" where
  "handle_harpoon coll w =
     (if hasHarpoon (player w) \<and> harpoonTimer (player w) > 0 then
        (let r = harpoonRect (player w)
         in case harpoon_monsters coll r (monsters w) (score (player w)) of
              (ms, sc1) \<Rightarrow>
                (case harpoon_dragons coll r (dragons w) sc1 of
                   (ds, sc2) \<Rightarrow>
                     w\<lparr>monsters := ms, dragons := ds, player := (player w)\<lparr>score := sc2\<rparr>\<rparr>))
      else w)"

definition collect_fruit :: "(Rectangle \<Rightarrow> Rectangle \<Rightarrow> bool) \<Rightarrow> World \<Rightarrow> World" where
  "collect_fruit coll w =
     (if \<not> collected (fruit w) \<and> coll (Player_Bounds (player w)) (Fruit_Bounds (fruit w)) then
        w\<lparr>fruit := (fruit w)\<lparr>collected := True\<rparr>,
          player := (player w)\<lparr>score := score (player w) + 500\<rparr>\<rparr>
      else w)"

definition death_resolution :: "bool \<Rightarrow> World \<Rightarrow> World" where
  "death_resolution can_open w =
     (if \<not> alive (player w) then
        (let w1 = w\<lparr>player := (player w)\<lparr>lives := lives (player w) - 1,
                                         deathFlashTimer := DEATH_FLASH_TIME\<rparr>\<rparr>
         in if lives (player w1) > 0 then w1\<lparr>respawnTimer := RESPAWN_DELAY\<rparr>
            else (SaveHighScore can_open w1)\<lparr>state := GAMEOVER\<rparr>)
      else w)"

fun all_dead :: "Enemy list \<Rightarrow> bool" where
  "all_dead [] = True"
| "all_dead (e # rest) = (if e_alive e then False else all_dead rest)"

definition win_check :: "bool \<Rightarrow> World \<Rightarrow> World" where
  "win_check can_open w =
     (let allMonstersDead = all_dead (monsters w);
          allDragonsDead = all_dead (dragons w)
      in if allMonstersDead \<and> allDragonsDead then (SaveHighScore can_open w)\<lparr>state := WIN\<rparr>
         else w)"

section \<open>Auxiliary notions for the properties\<close>

text \<open>
  \<open>Contains\<close> and \<open>Intersects\<close> read the origin, the length and the direction of a
  tunnel, never its flags; two tunnel lists have the same layout when they agree on
  these, tunnel by tunnel.
\<close>

definition geometry :: "Tunnel \<Rightarrow> int \<times> int \<times> int \<times> TunnelDirection" where
  "geometry t = (startX t, startY t, length_t t, direction t)"

definition same_layout :: "Tunnel list \<Rightarrow> Tunnel list \<Rightarrow> bool" where
  "same_layout ts us \<longleftrightarrow> map geometry ts = map geometry us"

text \<open>
  What every accepted tunnel satisfies (\<open>in_margin\<close> is the bounds test of
  \<^verbatim>\<open>IsValidTunnel\<close>), and the invariant of the tunnel list during generation.
\<close>

definition in_margin :: "Tunnel \<Rightarrow> bool" where
  "in_margin t \<longleftrightarrow>
     (direction t = HORIZONTAL \<and> 1 \<le> startX t \<and> startX t + length_t t < GRID_WIDTH - 1 \<and>
        1 \<le> startY t \<and> startY t < GRID_HEIGHT - 1) \<or>
     (direction t = VERTICAL \<and> 1 \<le> startX t \<and> startX t < GRID_WIDTH - 1 \<and>
        1 \<le> startY t \<and> startY t + length_t t < GRID_HEIGHT - 1)"

definition layout_ok :: "Tunnel list \<Rightarrow> bool" where
  "layout_ok ts \<longleftrightarrow>
     distinct ts \<and>
     (\<forall>t \<in> set ts. in_margin t \<and> 4 \<le> length_t t \<and> length_t t \<le> 8 \<and> dug t \<and> \<not> activated t) \<and>
     (\<forall>t \<in> set ts. \<forall>u \<in> set ts. t \<noteq> u \<longrightarrow> \<not> Intersects t u)"

definition accepted_valid :: "Tunnel list \<Rightarrow> bool" where
  "accepted_valid ts \<longleftrightarrow> (\<forall>i < length ts. IsValidTunnel (take i ts) (ts ! i))"

text \<open>
  What holds of the variables of the horizontal loop (tunnel list \<open>ts\<close>, attempts \<open>a\<close>,
  generator position \<open>k\<close>) when it is started as \<^verbatim>\<open>CreateTunnels\<close> starts it, with
  the generator at \<open>k0\<close>.
\<close>

definition horizontal_post :: "nat \<Rightarrow> Tunnel list \<Rightarrow> nat \<Rightarrow> nat \<Rightarrow> bool" where
  "horizontal_post k0 ts a k \<longleftrightarrow>
     a \<le> 50 \<and> k = k0 + 3 * a \<and> length ts \<le> 4 \<and> length ts \<le> a \<and>
     (\<forall>t \<in> set ts. direction t = HORIZONTAL) \<and> layout_ok ts \<and> accepted_valid ts"

text \<open>
  The same for the vertical loop, started from the outcome \<open>hs\<close> of the horizontal one.
\<close>

definition vertical_post :: "Tunnel list \<Rightarrow> nat \<Rightarrow> Tunnel list \<Rightarrow> nat \<Rightarrow> nat \<Rightarrow> bool" where
  "vertical_post hs k0 ts a k \<longleftrightarrow>
     a \<le> 50 \<and> k = k0 + 3 * a \<and> length ts \<le> 8 \<and> length ts \<le> length hs + a \<and>
     (\<exists>vs. ts = hs @ vs \<and> (\<forall>t \<in> set vs. direction t = VERTICAL)) \<and>
     layout_ok ts \<and> accepted_valid ts"

text \<open>
  A generator sequence to run a level set-up on: 24 values for eight placement attempts,
  all accepted, then 8 values for the monsters' loop and 5 for the dragons' loop.
\<close>

definition rnd_sample :: "nat \<Rightarrow> nat" where
  "rnd_sample k =
     (if k < 37
      then [1, 5, 0, 1, 11, 1, 10, 1, 1, 13, 3, 0, 19, 1, 0, 10, 5, 0, 4, 1, 0, 19, 7, 3,
            0, 1, 0, 1, 1, 1, 0, 1,
            0, 1, 0, 0, 1] ! k
      else 0)"

text \<open>
  A generator sequence that returns 0 for the 150 calls of a horizontal phase that
  never reaches four tunnels, and then places a vertical tunnel in a new column at
  every attempt.
\<close>

definition rnd_one_horizontal :: "nat \<Rightarrow> nat" where
  "rnd_one_horizontal k =
     (if k < 150 then 0 else if k mod 3 = 0 then (k - 150) div 3 + 4 else 0)"

text \<open>
  The effect of \<^verbatim>\<open>CheckTunnelActivation\<close> for the player's tile \<open>(gx, gy)\<close>, element by
  element: \<open>activate\<close> on a tunnel, and \<open>release\<close> on an enemy whose home is one of
  the first \<open>n\<close> tunnels of the list \<open>ts\<close> (the tunnels the loop has visited).
\<close>

definition activate :: "int \<Rightarrow> int \<Rightarrow> Tunnel \<Rightarrow> Tunnel" where
  "activate gx gy t = (if Contains t gx gy \<and> \<not> activated t then t\<lparr>activated := True\<rparr> else t)"

definition released :: "int \<Rightarrow> int \<Rightarrow> Tunnel list \<Rightarrow> nat \<Rightarrow> Enemy \<Rightarrow> bool" where
  "released gx gy ts n e \<longleftrightarrow>
     homeTunnel e < n \<and> Contains (ts ! homeTunnel e) gx gy \<and> \<not> activated (ts ! homeTunnel e)"

definition release :: "int \<Rightarrow> int \<Rightarrow> Tunnel list \<Rightarrow> nat \<Rightarrow> Enemy \<Rightarrow> Enemy" where
  "release gx gy ts n e =
     (if released gx gy ts n e then e\<lparr>inTunnel := False, chasing := True\<rparr> else e)"

text \<open>The player's tile, as \<^verbatim>\<open>CheckTunnelActivation\<close> computes it.\<close>

definition playerGridX :: "World \<Rightarrow> int" where
  "playerGridX w = float_to_int (vec_x (pos (player w)) / of_int TILE_SIZE)"

definition playerGridY :: "World \<Rightarrow> int" where
  "playerGridY w = float_to_int (vec_y (pos (player w)) / of_int TILE_SIZE)"

text \<open>
  A world in play with two tunnels: the player (at pixel \<open>(100, 100)\<close>, tile \<open>(3, 3)\<close>)
  stands in the first one, which is home to a monster and a dragon; a second monster
  lives in the other tunnel.
\<close>

definition world_in_tunnel :: World where
  "world_in_tunnel =
     (mkWorld None)\<lparr>tunnels := [mkTunnel 2 3 6 HORIZONTAL, mkTunnel 10 5 4 VERTICAL],
                    monsters := [Monster 160 96 0, Monster 320 224 1],
                    dragons := [Dragon 192 96 0],
                    state := PLAYING\<rparr>"

text \<open>
  A world in play with the harpoon fired to the right from pixel \<open>(100, 100)\<close>: its
  rectangle overlaps a live monster, a dead monster and a live dragon.
\<close>

definition world_harpoon :: World where
  "world_harpoon =
     (mkWorld None)\<lparr>player := (mkPlayer 100 100)\<lparr>hasHarpoon := True, harpoonTimer := 15\<rparr>,
                    monsters := [Monster 130 100 0, (Monster 140 100 0)\<lparr>e_alive := False\<rparr>],
                    dragons := [Dragon 150 110 1],
                    state := PLAYING\<rparr>"

text \<open>
  The enemies a harpoon rectangle hits: alive, and overlapping the rectangle.
\<close>

definition harpoon_hit :: "(Rectangle \<Rightarrow> Rectangle \<Rightarrow> bool) \<Rightarrow> Rectangle \<Rightarrow> Enemy \<Rightarrow> bool" where
  "harpoon_hit coll r e \<longleftrightarrow> e_alive e \<and> coll r (Enemy_Bounds e)"

definition harpoon_kill :: "(Rectangle \<Rightarrow> Rectangle \<Rightarrow> bool) \<Rightarrow> Rectangle \<Rightarrow> Enemy \<Rightarrow> Enemy" where
  "harpoon_kill coll r e = (if harpoon_hit coll r e then e\<lparr>e_alive := False\<rparr> else e)"

text \<open>
  A world in play where the player, on the last life and with 700 points, overlaps a live
  monster; the stored high score is 500.
\<close>

definition world_last_life :: World where
  "world_last_life =
     (mkWorld (Some 500))\<lparr>player := (mkPlayer 100 100)\<lparr>lives := 1, score := 700\<rparr>,
                          monsters := [Monster 110 100 0],
                          highScore := 500,
                          state := PLAYING\<rparr>"

text \<open>
  The reference definition of intersection, in the spec's words: tunnels of the same
  orientation intersect when they share the perpendicular coordinate and their half-open
  spans \<open>[start, start + length)\<close> have a point in common; tunnels of opposite
  orientation intersect when each one's fixed coordinate lies within the other's span.
\<close>

definition Intersects_spec :: "Tunnel \<Rightarrow> Tunnel \<Rightarrow> bool" where
  "Intersects_spec a b =
     (if direction a = direction b then
        (if direction a = HORIZONTAL then
           startY a = startY b \<and>
           {startX a ..< startX a + length_t a} \<inter> {startX b ..< startX b + length_t b} \<noteq> {}
         else
           startX a = startX b \<and>
           {startY a ..< startY a + length_t a} \<inter> {startY b ..< startY b + length_t b} \<noteq> {})
      else
        (if direction a = HORIZONTAL then
           startY a \<in> {startY b ..< startY b + length_t b} \<and>
           startX b \<in> {startX a ..< startX a + length_t a}
         else
           startX a \<in> {startX b ..< startX b + length_t b} \<and>
           startY b \<in> {startY a ..< startY a + length_t a}))"

text \<open>
  The chase step as one rule with the two speeds as parameters, after the spec's
  design note (one behaviour, parameterised by the kind).
\<close>

definition chase_step :: "rat \<Rightarrow> rat \<Rightarrow> Vector2 \<Rightarrow> Enemy \<Rightarrow> Enemy" where
  "chase_step patrolSpeed chaseSpeed target e =
     (if \<not> e_alive e \<or> inTunnel e then e
      else
        (let v = (if chasing e then chaseSpeed else patrolSpeed);
             x = vec_x (e_pos e);
             y = vec_y (e_pos e)
         in e\<lparr>e_pos := \<lparr>vec_x = (if vec_x target > x then x + v
                                   else if vec_x target < x then x - v else x),
                         vec_y = (if vec_y target > y then y + v
                                   else if vec_y target < y then y - v else y)\<rparr>\<rparr>))"

text \<open>An enemy released from its tunnel at the origin, and a target to its right.\<close>

definition chaser :: Enemy where
  "chaser = (Monster 0 0 0)\<lparr>inTunnel := False, chasing := True\<rparr>"

definition target_right :: Vector2 where
  "target_right = \<lparr>vec_x = 10, vec_y = 0\<rparr>"

text \<open>
  The enemy that the placement loops of \<^verbatim>\<open>ResetLevel\<close> put into the tunnel \<open>t\<close> of
  index \<open>i\<close>: at the middle tile, patrolling in direction \<open>+1\<close>.
\<close>

definition spawn :: "Tunnel \<Rightarrow> nat \<Rightarrow> Enemy" where
  "spawn t i =
     Monster
       (if direction t = HORIZONTAL then (startX t + cdiv (length_t t) 2) * TILE_SIZE
        else startX t * TILE_SIZE)
       (if direction t = HORIZONTAL then startY t * TILE_SIZE
        else (startY t + cdiv (length_t t) 2) * TILE_SIZE)
       i"

text \<open>
  Patrol movement runs along the axis of the home tunnel: \<open>patrol_pos\<close> is the enemy's
  coordinate on that axis, \<open>patrol_tile\<close> its tile on that axis and \<open>patrol_start\<close> the
  tile where the tunnel starts; \<open>cross_tile\<close> and \<open>cross_start\<close> are the same across
  the axis. (As in \<^verbatim>\<open>MoveInTunnel\<close>, the axis is x for a horizontal tunnel and y
  otherwise.)
\<close>

definition patrol_pos :: "Tunnel \<Rightarrow> Enemy \<Rightarrow> rat" where
  "patrol_pos home e =
     (if direction home = HORIZONTAL then vec_x (e_pos e) else vec_y (e_pos e))"

definition patrol_tile :: "Tunnel \<Rightarrow> Enemy \<Rightarrow> int" where
  "patrol_tile home e = (if direction home = HORIZONTAL then gridX_of e else gridY_of e)"

definition patrol_start :: "Tunnel \<Rightarrow> int" where
  "patrol_start home = (if direction home = HORIZONTAL then startX home else startY home)"

definition cross_tile :: "Tunnel \<Rightarrow> Enemy \<Rightarrow> int" where
  "cross_tile home e = (if direction home = HORIZONTAL then gridY_of e else gridX_of e)"

definition cross_start :: "Tunnel \<Rightarrow> int" where
  "cross_start home = (if direction home = HORIZONTAL then startY home else startX home)"

text \<open>
  The two zones of the span from which the next patrol step leaves it: less than half
  a pixel from the span's first pixel and heading backwards, or less than half a pixel
  from its end and heading forwards. (\<^verbatim>\<open>MoveInTunnel\<close> moves half a pixel and tests
  the tile afterwards.)
\<close>

definition outward_edge :: "Tunnel \<Rightarrow> Enemy \<Rightarrow> bool" where
  "outward_edge home e \<longleftrightarrow>
     (e_direction e = - 1 \<and>
        patrol_pos home e < of_int (TILE_SIZE * patrol_start home) + 1 / 2) \<or>
     (e_direction e = 1 \<and>
        of_int (TILE_SIZE * (patrol_start home + length_t home)) - 1 / 2 \<le> patrol_pos home e)"

text \<open>
  The invariant of patrol movement along the axis, for a tunnel that starts at tile
  \<open>start\<close> and has \<open>len\<close> tiles: the coordinate \<open>p\<close> is within the span, the direction
  \<open>d\<close> is \<open>+1\<close> or \<open>-1\<close>, and \<open>p\<close> is in neither outward zone. \<open>patrol_inv\<close> adds that
  the tile across the axis is the tunnel's.
\<close>

definition in_lane :: "int \<Rightarrow> int \<Rightarrow> rat \<Rightarrow> int \<Rightarrow> bool" where
  "in_lane start len p d \<longleftrightarrow>
     (d = 1 \<or> d = - 1) \<and>
     of_int (TILE_SIZE * start) \<le> p \<and> p < of_int (TILE_SIZE * (start + len)) \<and>
     (d = - 1 \<longrightarrow> of_int (TILE_SIZE * start) + 1 / 2 \<le> p) \<and>
     (d = 1 \<longrightarrow> p < of_int (TILE_SIZE * (start + len)) - 1 / 2)"

definition patrol_inv :: "Tunnel \<Rightarrow> Enemy \<Rightarrow> bool" where
  "patrol_inv home e \<longleftrightarrow>
     cross_tile home e = cross_start home \<and>
     in_lane (patrol_start home) (length_t home) (patrol_pos home e) (e_direction e)"

text \<open>
  The states from which the enemy travels between the two end tiles: from half a pixel
  before the second tile to half a pixel past the start of the last tile, heading
  inwards where it is on an end tile. Level set-up places every enemy in such a state,
  and a patrol step leads from such a state to such a state.
\<close>

definition in_corridor :: "int \<Rightarrow> int \<Rightarrow> rat \<Rightarrow> int \<Rightarrow> bool" where
  "in_corridor start len p d \<longleftrightarrow>
     (d = 1 \<or> d = - 1) \<and>
     of_int (TILE_SIZE * (start + 1)) - 1 / 2 \<le> p \<and>
     p < of_int (TILE_SIZE * (start + len - 1)) + 1 / 2 \<and>
     (p < of_int (TILE_SIZE * (start + 1)) \<longrightarrow> d = 1) \<and>
     (of_int (TILE_SIZE * (start + len - 1)) \<le> p \<longrightarrow> d = - 1)"

definition between_ends :: "Tunnel \<Rightarrow> Enemy \<Rightarrow> bool" where
  "between_ends home e \<longleftrightarrow>
     in_corridor (patrol_start home) (length_t home) (patrol_pos home e) (e_direction e)"


section \<open>Properties of the tunnel predicates\<close>

lemma Intersects_sym:
  "direction a \<noteq> NONE \<Longrightarrow> direction b \<noteq> NONE \<Longrightarrow> Intersects a b = Intersects b a"
  by (cases "direction a"; cases "direction b") (auto simp: Intersects_def)

lemma Intersects_self: "direction a \<noteq> NONE \<Longrightarrow> 0 < length_t a \<Longrightarrow> Intersects a a"
  by (cases "direction a") (auto simp: Intersects_def)

lemma intersects_existing_iff:
  "intersects_existing n ts \<longleftrightarrow> (\<exists>t \<in> set ts. Intersects n t)"
  by (induction ts) auto

lemma Contains_Intersects: "Contains a x y \<Longrightarrow> Contains b x y \<Longrightarrow> Intersects a b"
  by (cases "direction a"; cases "direction b") (auto simp: Contains_def Intersects_def)

lemma IsValidTunnel_no_hit: "IsValidTunnel ts n \<Longrightarrow> u \<in> set ts \<Longrightarrow> \<not> Intersects n u"
  by (auto simp: IsValidTunnel_def intersects_existing_iff split: if_splits)

lemma Intersects_geometry:
  "geometry a = geometry a' \<Longrightarrow> geometry b = geometry b' \<Longrightarrow> Intersects a b = Intersects a' b'"
  by (simp add: geometry_def Intersects_def)

lemma Contains_geometry: "geometry a = geometry a' \<Longrightarrow> Contains a x y = Contains a' x y"
  by (simp add: geometry_def Contains_def)

lemma same_layout_refl: "same_layout ts ts"
  by (simp add: same_layout_def)

lemma same_layout_length: "same_layout ts us \<Longrightarrow> length ts = length us"
  unfolding same_layout_def by (rule map_eq_imp_length_eq)

lemma same_layout_nth:
  "same_layout ts us \<Longrightarrow> i < length ts \<Longrightarrow> geometry (ts ! i) = geometry (us ! i)"
proof -
  assume a: "same_layout ts us" and i: "i < length ts"
  have "map geometry ts ! i = map geometry us ! i"
    using a by (simp add: same_layout_def)
  then show ?thesis
    using i same_layout_length [OF a] by simp
qed

section \<open>Properties of layout generation\<close>

declare horizontal_loop.simps [simp del] vertical_loop.simps [simp del]

text \<open>
  An invariant rule for each loop: a property of the loop's variables that holds at
  entry and is kept by an iteration, whether the candidate is rejected or accepted, holds
  at exit, where the loop condition is false.
\<close>

lemma horizontal_loop_rule:
  assumes init: "P ts a k"
    and reject: "\<And>ts a k. P ts a k \<Longrightarrow> length ts < 4 \<Longrightarrow> a < 50 \<Longrightarrow> P ts (a + 1) (k + 3)"
    and accept: "\<And>ts a k x y len. P ts a k \<Longrightarrow> length ts < 4 \<Longrightarrow> a < 50 \<Longrightarrow>
                 IsValidTunnel ts (mkTunnel x y len HORIZONTAL) \<Longrightarrow> 4 \<le> len \<Longrightarrow> len \<le> 8 \<Longrightarrow>
                 P (ts @ [mkTunnel x y len HORIZONTAL]) (a + 1) (k + 3)"
  shows "\<exists>ts' a' k'. horizontal_loop rnd k ts a = (ts', a', k') \<and> P ts' a' k' \<and>
           \<not> (length ts' < 4 \<and> a' < 50)"
  using init
proof (induction rnd k ts a rule: horizontal_loop.induct)
  case (1 rnd k tunnels attempts)
  show ?case
  proof (cases "length tunnels < 4 \<and> attempts < 50")
    case False
    then show ?thesis using "1.prems" by (subst horizontal_loop.simps) auto
  next
    case True
    define x where "x = int (rnd k) mod (GRID_WIDTH - 10) + 2"
    define y where "y = int (rnd (k + 1)) mod (GRID_HEIGHT - 4) + 2"
    define len where "len = int (rnd (k + 2)) mod 5 + 4"
    define ts1 where
      "ts1 = (if IsValidTunnel tunnels (mkTunnel x y len HORIZONTAL)
              then tunnels @ [mkTunnel x y len HORIZONTAL] else tunnels)"
    have len: "4 \<le> len" "len \<le> 8"
      by (simp_all add: len_def)
    have P: "P ts1 (attempts + 1) (k + 3)"
      using "1.prems" accept [of tunnels attempts k x y len] reject [of tunnels attempts k] len True
      by (simp add: ts1_def)
    have unfold: "horizontal_loop rnd k tunnels attempts =
        horizontal_loop rnd (k + 3) ts1 (attempts + 1)"
      using True by (subst horizontal_loop.simps) (simp add: Let_def x_def y_def len_def ts1_def)
    show ?thesis
      unfolding unfold
      using "1.IH" [OF True refl refl refl refl] P unfolding x_def y_def len_def ts1_def by simp
  qed
qed

lemma vertical_loop_rule:
  assumes init: "P ts a k"
    and reject: "\<And>ts a k. P ts a k \<Longrightarrow> length ts < 8 \<Longrightarrow> a < 50 \<Longrightarrow> P ts (a + 1) (k + 3)"
    and accept: "\<And>ts a k x y len. P ts a k \<Longrightarrow> length ts < 8 \<Longrightarrow> a < 50 \<Longrightarrow>
                 IsValidTunnel ts (mkTunnel x y len VERTICAL) \<Longrightarrow> 4 \<le> len \<Longrightarrow> len \<le> 8 \<Longrightarrow>
                 P (ts @ [mkTunnel x y len VERTICAL]) (a + 1) (k + 3)"
  shows "\<exists>ts' a' k'. vertical_loop rnd k ts a = (ts', a', k') \<and> P ts' a' k' \<and>
           \<not> (length ts' < 8 \<and> a' < 50)"
  using init
proof (induction rnd k ts a rule: vertical_loop.induct)
  case (1 rnd k tunnels attempts)
  show ?case
  proof (cases "length tunnels < 8 \<and> attempts < 50")
    case False
    then show ?thesis using "1.prems" by (subst vertical_loop.simps) auto
  next
    case True
    define x where "x = int (rnd k) mod (GRID_WIDTH - 4) + 2"
    define y where "y = int (rnd (k + 1)) mod (GRID_HEIGHT - 10) + 2"
    define len where "len = int (rnd (k + 2)) mod 5 + 4"
    define ts1 where
      "ts1 = (if IsValidTunnel tunnels (mkTunnel x y len VERTICAL)
              then tunnels @ [mkTunnel x y len VERTICAL] else tunnels)"
    have len: "4 \<le> len" "len \<le> 8"
      by (simp_all add: len_def)
    have P: "P ts1 (attempts + 1) (k + 3)"
      using "1.prems" accept [of tunnels attempts k x y len] reject [of tunnels attempts k] len True
      by (simp add: ts1_def)
    have unfold: "vertical_loop rnd k tunnels attempts =
        vertical_loop rnd (k + 3) ts1 (attempts + 1)"
      using True by (subst vertical_loop.simps) (simp add: Let_def x_def y_def len_def ts1_def)
    show ?thesis
      unfolding unfold
      using "1.IH" [OF True refl refl refl refl] P unfolding x_def y_def len_def ts1_def by simp
  qed
qed

lemma in_margin_dir: "in_margin t \<Longrightarrow> direction t \<noteq> NONE"
  by (auto simp: in_margin_def)

lemma IsValidTunnel_in_margin: "IsValidTunnel ts n \<Longrightarrow> direction n \<noteq> NONE \<Longrightarrow> in_margin n"
  by (cases "direction n") (auto simp: IsValidTunnel_def in_margin_def split: if_splits)

lemma layout_ok_snoc:
  assumes ok: "layout_ok ts" and valid: "IsValidTunnel ts (mkTunnel x y len dir)"
    and dir: "dir \<noteq> NONE" and len: "4 \<le> len" "len \<le> 8"
  shows "layout_ok (ts @ [mkTunnel x y len dir])"
proof -
  define n where "n = mkTunnel x y len dir"
  have n: "direction n \<noteq> NONE" "4 \<le> length_t n" "length_t n \<le> 8" "dug n" "\<not> activated n"
    using dir len by (simp_all add: n_def mkTunnel_def)
  have valid': "IsValidTunnel ts n"
    using valid by (simp add: n_def)
  have nohit: "\<not> Intersects n u" if "u \<in> set ts" for u
    using IsValidTunnel_no_hit [OF valid' that] .
  have udir: "direction u \<noteq> NONE" if "u \<in> set ts" for u
    using ok that by (auto simp: layout_ok_def dest: in_margin_dir)
  have nohit': "\<not> Intersects u n" if "u \<in> set ts" for u
    using nohit [OF that] Intersects_sym [OF udir [OF that] n(1)] by simp
  have "Intersects n n"
    using Intersects_self [OF n(1)] n(2) by simp
  then have fresh: "n \<notin> set ts"
    using nohit by blast
  have "layout_ok (ts @ [n])"
    unfolding layout_ok_def
    using ok fresh nohit nohit' IsValidTunnel_in_margin [OF valid' n(1)] n
    by (auto simp: layout_ok_def)
  then show ?thesis by (simp add: n_def)
qed

lemma accepted_valid_snoc:
  assumes "accepted_valid ts" and "IsValidTunnel ts n"
  shows "accepted_valid (ts @ [n])"
  unfolding accepted_valid_def
proof (intro allI impI)
  fix i assume "i < length (ts @ [n])"
  then consider "i < length ts" | "i = length ts" by fastforce
  then show "IsValidTunnel (take i (ts @ [n])) ((ts @ [n]) ! i)"
  proof cases
    case 1
    then show ?thesis using assms(1) by (simp add: accepted_valid_def nth_append)
  next
    case 2
    then show ?thesis using assms(2) by simp
  qed
qed

lemma horizontal_phase:
  "\<exists>hs a1. horizontal_loop rnd k [] 0 = (hs, a1, k + 3 * a1) \<and>
     horizontal_post k hs a1 (k + 3 * a1) \<and> (a1 < 50 \<longrightarrow> length hs = 4)"
proof -
  have "\<exists>ts' a' k'. horizontal_loop rnd k [] 0 = (ts', a', k') \<and> horizontal_post k ts' a' k' \<and>
           \<not> (length ts' < 4 \<and> a' < 50)"
  proof (rule horizontal_loop_rule)
    show "horizontal_post k [] 0 k"
      by (simp add: horizontal_post_def layout_ok_def accepted_valid_def)
  next
    fix ts a k' assume "horizontal_post k ts a k'" "length ts < 4" "a < 50"
    then show "horizontal_post k ts (a + 1) (k' + 3)"
      by (simp add: horizontal_post_def)
  next
    fix ts a k' x y len
    assume P: "horizontal_post k ts a k'" and "length ts < 4" "a < 50"
      and v: "IsValidTunnel ts (mkTunnel x y len HORIZONTAL)" and len: "4 \<le> len" "len \<le> 8"
    have "layout_ok (ts @ [mkTunnel x y len HORIZONTAL])"
      using layout_ok_snoc [OF _ v _ len] P by (simp add: horizontal_post_def)
    moreover have "accepted_valid (ts @ [mkTunnel x y len HORIZONTAL])"
      using accepted_valid_snoc [OF _ v] P by (simp add: horizontal_post_def)
    ultimately show "horizontal_post k (ts @ [mkTunnel x y len HORIZONTAL]) (a + 1) (k' + 3)"
      using P \<open>length ts < 4\<close> \<open>a < 50\<close>
      by (simp add: horizontal_post_def mkTunnel_def)
  qed
  then obtain ts' a' k' where r: "horizontal_loop rnd k [] 0 = (ts', a', k')"
    and P: "horizontal_post k ts' a' k'" and ex: "\<not> (length ts' < 4 \<and> a' < 50)"
    by blast
  have k': "k' = k + 3 * a'"
    using P by (simp add: horizontal_post_def)
  have "length ts' \<le> 4"
    using P by (simp add: horizontal_post_def)
  then have full: "a' < 50 \<longrightarrow> length ts' = 4"
    using ex by arith
  have "horizontal_loop rnd k [] 0 = (ts', a', k + 3 * a') \<and>
     horizontal_post k ts' a' (k + 3 * a') \<and> (a' < 50 \<longrightarrow> length ts' = 4)"
    using r P full by (simp add: k')
  then show ?thesis
    by (intro exI)
qed

lemma vertical_phase:
  assumes hs: "length hs \<le> 4" "layout_ok hs" "accepted_valid hs"
  shows "\<exists>vs a2. vertical_loop rnd k hs 0 = (hs @ vs, a2, k + 3 * a2) \<and>
     vertical_post hs k (hs @ vs) a2 (k + 3 * a2) \<and> (\<forall>t \<in> set vs. direction t = VERTICAL) \<and>
     (a2 < 50 \<longrightarrow> length (hs @ vs) = 8)"
proof -
  have "\<exists>ts' a' k'. vertical_loop rnd k hs 0 = (ts', a', k') \<and> vertical_post hs k ts' a' k' \<and>
           \<not> (length ts' < 8 \<and> a' < 50)"
  proof (rule vertical_loop_rule)
    show "vertical_post hs k hs 0 k"
      using hs by (simp add: vertical_post_def)
  next
    fix ts a k' assume "vertical_post hs k ts a k'" "length ts < 8" "a < 50"
    then show "vertical_post hs k ts (a + 1) (k' + 3)"
      by (simp add: vertical_post_def)
  next
    fix ts a k' x y len
    assume P: "vertical_post hs k ts a k'" and "length ts < 8" "a < 50"
      and v: "IsValidTunnel ts (mkTunnel x y len VERTICAL)" and len: "4 \<le> len" "len \<le> 8"
    have "layout_ok (ts @ [mkTunnel x y len VERTICAL])"
      using layout_ok_snoc [OF _ v _ len] P by (simp add: vertical_post_def)
    moreover have "accepted_valid (ts @ [mkTunnel x y len VERTICAL])"
      using accepted_valid_snoc [OF _ v] P by (simp add: vertical_post_def)
    moreover obtain vs where vs: "ts = hs @ vs" "\<forall>t \<in> set vs. direction t = VERTICAL"
      using P unfolding vertical_post_def by blast
    have "\<exists>vs'. ts @ [mkTunnel x y len VERTICAL] = hs @ vs' \<and> (\<forall>t \<in> set vs'. direction t = VERTICAL)"
      using vs by (intro exI [of _ "vs @ [mkTunnel x y len VERTICAL]"]) (simp add: mkTunnel_def)
    ultimately show "vertical_post hs k (ts @ [mkTunnel x y len VERTICAL]) (a + 1) (k' + 3)"
      using P \<open>length ts < 8\<close> \<open>a < 50\<close>
      by (simp add: vertical_post_def)
  qed
  then obtain ts' a' k' where r: "vertical_loop rnd k hs 0 = (ts', a', k')"
    and P: "vertical_post hs k ts' a' k'" and ex: "\<not> (length ts' < 8 \<and> a' < 50)"
    by blast
  obtain vs where vs: "ts' = hs @ vs" "\<forall>t \<in> set vs. direction t = VERTICAL"
    using P unfolding vertical_post_def by blast
  have k': "k' = k + 3 * a'"
    using P by (simp add: vertical_post_def)
  have "length ts' \<le> 8"
    using P by (simp add: vertical_post_def)
  then have full: "a' < 50 \<longrightarrow> length ts' = 8"
    using ex by arith
  have "vertical_loop rnd k hs 0 = (hs @ vs, a', k + 3 * a') \<and>
     vertical_post hs k (hs @ vs) a' (k + 3 * a') \<and> (\<forall>t \<in> set vs. direction t = VERTICAL) \<and>
     (a' < 50 \<longrightarrow> length (hs @ vs) = 8)"
    using r P full vs(2) unfolding k' vs(1) by (intro conjI)
  then show ?thesis
    by (intro exI)
qed

text \<open>\<^verbatim>\<open>CreateTunnels\<close> as the two phases in sequence.\<close>

lemma CreateTunnels_phases:
  "\<exists>hs vs a1 a2.
     horizontal_loop rnd k [] 0 = (hs, a1, k + 3 * a1) \<and>
     vertical_loop rnd (k + 3 * a1) hs 0 = (hs @ vs, a2, k + 3 * a1 + 3 * a2) \<and>
     CreateTunnels rnd k = (hs @ vs, k + 3 * a1 + 3 * a2) \<and>
     horizontal_post k hs a1 (k + 3 * a1) \<and> (a1 < 50 \<longrightarrow> length hs = 4) \<and>
     vertical_post hs (k + 3 * a1) (hs @ vs) a2 (k + 3 * a1 + 3 * a2) \<and>
     (\<forall>t \<in> set vs. direction t = VERTICAL) \<and>
     (a2 < 50 \<longrightarrow> length (hs @ vs) = 8)"
proof -
  obtain hs a1 where h: "horizontal_loop rnd k [] 0 = (hs, a1, k + 3 * a1)"
    "horizontal_post k hs a1 (k + 3 * a1)" "a1 < 50 \<longrightarrow> length hs = 4"
    using horizontal_phase [of rnd k] by blast
  have hs: "length hs \<le> 4" "layout_ok hs" "accepted_valid hs"
    using h(2) by (simp_all add: horizontal_post_def)
  obtain vs a2 where v: "vertical_loop rnd (k + 3 * a1) hs 0 = (hs @ vs, a2, k + 3 * a1 + 3 * a2)"
    "vertical_post hs (k + 3 * a1) (hs @ vs) a2 (k + 3 * a1 + 3 * a2)"
    "\<forall>t \<in> set vs. direction t = VERTICAL" "a2 < 50 \<longrightarrow> length (hs @ vs) = 8"
    using vertical_phase [OF hs, of rnd "k + 3 * a1"] by blast
  have c: "CreateTunnels rnd k = (hs @ vs, k + 3 * a1 + 3 * a2)"
    by (simp add: CreateTunnels_def h(1) v(1))
  have "horizontal_loop rnd k [] 0 = (hs, a1, k + 3 * a1) \<and>
     vertical_loop rnd (k + 3 * a1) hs 0 = (hs @ vs, a2, k + 3 * a1 + 3 * a2) \<and>
     CreateTunnels rnd k = (hs @ vs, k + 3 * a1 + 3 * a2) \<and>
     horizontal_post k hs a1 (k + 3 * a1) \<and> (a1 < 50 \<longrightarrow> length hs = 4) \<and>
     vertical_post hs (k + 3 * a1) (hs @ vs) a2 (k + 3 * a1 + 3 * a2) \<and>
     (\<forall>t \<in> set vs. direction t = VERTICAL) \<and>
     (a2 < 50 \<longrightarrow> length (hs @ vs) = 8)"
    using h v c by (intro conjI)
  then show ?thesis
    by (intro exI)
qed

lemma CreateTunnels_layout_ok: "layout_ok (fst (CreateTunnels rnd k))"
proof -
  obtain hs vs a1 a2 where "CreateTunnels rnd k = (hs @ vs, k + 3 * a1 + 3 * a2)"
    "vertical_post hs (k + 3 * a1) (hs @ vs) a2 (k + 3 * a1 + 3 * a2)"
    using CreateTunnels_phases [of rnd k] by blast
  then show ?thesis by (simp add: vertical_post_def)
qed

lemma CreateTunnels_sample:
  "fst (CreateTunnels rnd_sample 0) =
     [mkTunnel 3 7 4 HORIZONTAL, mkTunnel 3 13 5 HORIZONTAL, mkTunnel 12 3 5 HORIZONTAL,
      mkTunnel 15 5 4 HORIZONTAL, mkTunnel 21 3 4 VERTICAL, mkTunnel 12 7 4 VERTICAL,
      mkTunnel 6 3 4 VERTICAL, mkTunnel 21 9 7 VERTICAL]"
  by code_simp



section \<open>Tunnel activation\<close>

lemma alert_map:
  "alert i es = map (\<lambda>m. if homeTunnel m = i then m\<lparr>inTunnel := False, chasing := True\<rparr> else m) es"
  by (induction es) auto

lemma alert_release:
  assumes "Contains (ts ! n) gx gy" "\<not> activated (ts ! n)"
  shows "alert n (map (release gx gy ts n) es) = map (release gx gy ts (Suc n)) es"
  using assms by (induction es) (auto simp: release_def released_def less_Suc_eq)

lemma release_skip:
  assumes "\<not> (Contains (ts ! n) gx gy \<and> \<not> activated (ts ! n))"
  shows "map (release gx gy ts (Suc n)) es = map (release gx gy ts n) es"
  using assms by (induction es) (auto simp: release_def released_def less_Suc_eq)

lemma activate_prefix_step:
  assumes "n < length ts"
  shows "(map f (take n ts) @ drop n ts)[n := f (ts ! n)] = map f (take (Suc n) ts) @ drop (Suc n) ts"
proof -
  have "drop n ts = ts ! n # drop (Suc n) ts"
    using assms by (simp add: Cons_nth_drop_Suc)
  then have "(map f (take n ts) @ drop n ts)[n := f (ts ! n)] =
      map f (take n ts) @ (f (ts ! n) # drop (Suc n) ts)"
    using assms by (simp add: list_update_append)
  also have "\<dots> = map f (take (Suc n) ts) @ drop (Suc n) ts"
    using assms by (simp add: take_Suc_conv_app_nth)
  finally show ?thesis .
qed

lemma activate_prefix_nth:
  assumes "n < length ts"
  shows "(map f (take n ts) @ drop n ts) ! n = ts ! n"
  using assms by (simp add: nth_append)

lemma fold_activate_tunnel:
  assumes "n \<le> length (tunnels w)"
  shows "fold (activate_tunnel gx gy) [0 ..< n] w =
     w\<lparr>tunnels := map (activate gx gy) (take n (tunnels w)) @ drop n (tunnels w),
       monsters := map (release gx gy (tunnels w) n) (monsters w),
       dragons := map (release gx gy (tunnels w) n) (dragons w)\<rparr>"
  using assms
proof (induction n)
  case 0
  then show ?case by (simp add: release_def released_def)
next
  case (Suc n)
  define ts where "ts = tunnels w"
  define wn where "wn = w\<lparr>tunnels := map (activate gx gy) (take n ts) @ drop n ts,
       monsters := map (release gx gy ts n) (monsters w),
       dragons := map (release gx gy ts n) (dragons w)\<rparr>"
  have n: "n < length ts"
    using Suc.prems by (simp add: ts_def)
  have IH: "fold (activate_tunnel gx gy) [0 ..< n] w = wn"
    using Suc.IH n by (simp add: wn_def ts_def)
  have cur: "tunnels wn ! n = ts ! n"
    using activate_prefix_nth [OF n] by (simp add: wn_def)
  have step: "activate_tunnel gx gy n wn =
     w\<lparr>tunnels := map (activate gx gy) (take (Suc n) ts) @ drop (Suc n) ts,
       monsters := map (release gx gy ts (Suc n)) (monsters w),
       dragons := map (release gx gy ts (Suc n)) (dragons w)\<rparr>"
  proof (cases "Contains (ts ! n) gx gy \<and> \<not> activated (ts ! n)")
    case True
    have upd: "(tunnels wn)[n := (ts ! n)\<lparr>activated := True\<rparr>] =
        map (activate gx gy) (take (Suc n) ts) @ drop (Suc n) ts"
      using activate_prefix_step [OF n, of "activate gx gy"] True
      by (simp add: wn_def activate_def)
    show ?thesis
      using True cur upd alert_release [of ts n gx gy]
      by (simp add: activate_tunnel_def Let_def wn_def)
  next
    case False
    have same: "map (activate gx gy) (take (Suc n) ts) @ drop (Suc n) ts =
        map (activate gx gy) (take n ts) @ drop n ts"
      using activate_prefix_step [OF n, of "activate gx gy"] activate_prefix_nth [OF n, of "activate gx gy"]
        False
      by (metis activate_def list_update_id)
    have "activate_tunnel gx gy n wn = wn"
      using False cur by (auto simp: activate_tunnel_def Let_def)
    then show ?thesis
      using same release_skip [OF False] by (simp add: wn_def)
  qed
  have "fold (activate_tunnel gx gy) [0 ..< Suc n] w = activate_tunnel gx gy n wn"
    using IH by simp
  then show ?case
    using step by (simp add: ts_def)
qed

lemma CheckTunnelActivation_eq:
  "CheckTunnelActivation w =
     w\<lparr>tunnels := map (activate (playerGridX w) (playerGridY w)) (tunnels w),
       monsters := map (release (playerGridX w) (playerGridY w) (tunnels w) (length (tunnels w))) (monsters w),
       dragons := map (release (playerGridX w) (playerGridY w) (tunnels w) (length (tunnels w))) (dragons w)\<rparr>"
  using fold_activate_tunnel [of "length (tunnels w)" w "playerGridX w" "playerGridY w"]
  by (simp add: CheckTunnelActivation_def Let_def playerGridX_def playerGridY_def)

lemma geometry_activate: "geometry (activate gx gy t) = geometry t"
  by (simp add: activate_def geometry_def)

lemma CheckTunnelActivation_same_layout:
  "same_layout (tunnels (CheckTunnelActivation w)) (tunnels w)"
  by (simp add: CheckTunnelActivation_eq same_layout_def geometry_activate)

section \<open>Generated layouts: disjointness, margin, bounds\<close>

lemma generated_layout_ok:
  assumes "same_layout ts (fst (CreateTunnels rnd k))"
  shows "\<forall>i < length ts. \<forall>j < length ts. i \<noteq> j \<longrightarrow> \<not> Intersects (ts ! i) (ts ! j)"
proof (intro allI impI)
  fix i j assume i: "i < length ts" and j: "j < length ts" and ne: "i \<noteq> j"
  define L where "L = fst (CreateTunnels rnd k)"
  have ok: "layout_ok L"
    unfolding L_def by (rule CreateTunnels_layout_ok)
  have len: "length ts = length L"
    using assms by (simp add: L_def same_layout_length)
  have "L ! i \<noteq> L ! j"
    using ok i j ne len by (simp add: layout_ok_def nth_eq_iff_index_eq)
  moreover have "L ! i \<in> set L" "L ! j \<in> set L"
    using i j len by simp_all
  ultimately have "\<not> Intersects (L ! i) (L ! j)"
    using ok unfolding layout_ok_def by blast
  moreover have "Intersects (ts ! i) (ts ! j) = Intersects (L ! i) (L ! j)"
    using assms i j by (intro Intersects_geometry same_layout_nth) (simp_all add: L_def)
  ultimately show "\<not> Intersects (ts ! i) (ts ! j)"
    by simp
qed

text \<open>
  Claim C1. In every layout that \<^verbatim>\<open>CreateTunnels\<close> produces, two tunnels at different
  positions of the list never intersect. \<open>Intersects\<close> reads only the geometry of a
  tunnel, and within a level the update changes only the \<^verbatim>\<open>activated\<close> flags
  (\<open>CheckTunnelActivation_same_layout\<close>), so the statement is made for every tunnel list
  \<open>ts\<close> with the generated layout: it holds for the whole level.
\<close>

theorem CreateTunnels_pairwise_disjoint:
  assumes "same_layout ts (fst (CreateTunnels rnd k))"
    and "i < length ts" and "j < length ts" and "i \<noteq> j"
  shows "\<not> Intersects (ts ! i) (ts ! j)"
  using generated_layout_ok [OF assms(1)] assms(2-4) by blast

theorem CreateTunnels_pairwise_disjoint_witness:
  "same_layout (fst (CreateTunnels rnd_sample 0)) (fst (CreateTunnels rnd_sample 0)) \<and>
   0 < length (fst (CreateTunnels rnd_sample 0)) \<and>
   4 < length (fst (CreateTunnels rnd_sample 0)) \<and>
   \<not> Intersects (fst (CreateTunnels rnd_sample 0) ! 0) (fst (CreateTunnels rnd_sample 0) ! 4)"
proof -
  have len: "length (fst (CreateTunnels rnd_sample 0)) = 8"
    by (simp add: CreateTunnels_sample)
  have "\<not> Intersects (fst (CreateTunnels rnd_sample 0) ! 0) (fst (CreateTunnels rnd_sample 0) ! 4)"
    by (rule CreateTunnels_pairwise_disjoint [OF same_layout_refl]) (simp_all add: len)
  then show ?thesis
    by (simp add: len same_layout_refl)
qed

lemma Contains_in_margin:
  assumes "in_margin t" and "Contains t x y"
  shows "1 \<le> x \<and> x < GRID_WIDTH - 1 \<and> 1 \<le> y \<and> y < GRID_HEIGHT - 1"
  using assms by (auto simp: in_margin_def Contains_def)

text \<open>
  Claim C2. Every tunnel that generation accepts lies inside the one-tile border: a
  horizontal tunnel has its span \<open>[startX, startX + length)\<close> within
  \<open>[1, GRID_WIDTH - 1)\<close> and its row within \<open>[1, GRID_HEIGHT - 1)\<close>, a vertical tunnel
  has its span \<open>[startY, startY + length)\<close> within \<open>[1, GRID_HEIGHT - 1)\<close> and its column
  within \<open>[1, GRID_WIDTH - 1)\<close>; so every tile the tunnel contains is inside the border.
\<close>

theorem CreateTunnels_within_margin:
  assumes "t \<in> set (fst (CreateTunnels rnd k))"
  shows "(direction t = HORIZONTAL \<or> direction t = VERTICAL) \<and>
    (direction t = HORIZONTAL \<longrightarrow>
       1 \<le> startX t \<and> startX t + length_t t \<le> GRID_WIDTH - 1 \<and>
       1 \<le> startY t \<and> startY t < GRID_HEIGHT - 1) \<and>
    (direction t = VERTICAL \<longrightarrow>
       1 \<le> startY t \<and> startY t + length_t t \<le> GRID_HEIGHT - 1 \<and>
       1 \<le> startX t \<and> startX t < GRID_WIDTH - 1) \<and>
    (\<forall>x y. Contains t x y \<longrightarrow> 1 \<le> x \<and> x < GRID_WIDTH - 1 \<and> 1 \<le> y \<and> y < GRID_HEIGHT - 1)"
proof -
  have m: "in_margin t"
    using CreateTunnels_layout_ok [of rnd k] assms by (simp add: layout_ok_def)
  have "\<forall>x y. Contains t x y \<longrightarrow> 1 \<le> x \<and> x < GRID_WIDTH - 1 \<and> 1 \<le> y \<and> y < GRID_HEIGHT - 1"
    using Contains_in_margin [OF m] by blast
  moreover have "direction t = HORIZONTAL \<or> direction t = VERTICAL"
    using m by (auto simp: in_margin_def)
  moreover have "direction t = HORIZONTAL \<longrightarrow>
       1 \<le> startX t \<and> startX t + length_t t \<le> GRID_WIDTH - 1 \<and>
       1 \<le> startY t \<and> startY t < GRID_HEIGHT - 1"
    using m by (auto simp: in_margin_def)
  moreover have "direction t = VERTICAL \<longrightarrow>
       1 \<le> startY t \<and> startY t + length_t t \<le> GRID_HEIGHT - 1 \<and>
       1 \<le> startX t \<and> startX t < GRID_WIDTH - 1"
    using m by (auto simp: in_margin_def)
  ultimately show ?thesis by blast
qed

theorem CreateTunnels_within_margin_witness:
  "mkTunnel 3 7 4 HORIZONTAL \<in> set (fst (CreateTunnels rnd_sample 0)) \<and>
   Contains (mkTunnel 3 7 4 HORIZONTAL) 6 7 \<and>
   (1::int) \<le> 3 \<and> (3::int) + 4 \<le> GRID_WIDTH - 1 \<and> (1::int) \<le> 7 \<and> 7 < GRID_HEIGHT - 1 \<and>
   6 < GRID_WIDTH - 1"
proof -
  have mem: "mkTunnel 3 7 4 HORIZONTAL \<in> set (fst (CreateTunnels rnd_sample 0))"
    by (simp add: CreateTunnels_sample)
  have c: "Contains (mkTunnel 3 7 4 HORIZONTAL) 6 7"
    by (simp add: Contains_def mkTunnel_def)
  show ?thesis
    using CreateTunnels_within_margin [OF mem] mem c
    by (simp add: mkTunnel_def)
qed

lemma CreateTunnels_one_horizontal:
  "fst (CreateTunnels rnd_one_horizontal 0) =
     [mkTunnel 2 2 4 HORIZONTAL, mkTunnel 6 2 4 VERTICAL, mkTunnel 7 2 4 VERTICAL,
      mkTunnel 8 2 4 VERTICAL, mkTunnel 9 2 4 VERTICAL, mkTunnel 10 2 4 VERTICAL,
      mkTunnel 11 2 4 VERTICAL, mkTunnel 12 2 4 VERTICAL]"
  by code_simp

text \<open>
  Claim C9, as stated, fails: when the horizontal phase ends with fewer than four tunnels,
  the vertical phase fills the list up to eight, so more than four vertical tunnels are
  accepted. With a generator that returns 0 during the horizontal phase, the first
  candidate is accepted and the 49 others, equal to it, are rejected; the vertical phase
  then accepts seven tunnels in seven attempts.
\<close>

theorem CreateTunnels_vertical_counterexample:
  "length (filter (\<lambda>t. direction t = HORIZONTAL) (fst (CreateTunnels rnd_one_horizontal 0))) = 1 \<and>
   length (filter (\<lambda>t. direction t = VERTICAL) (fst (CreateTunnels rnd_one_horizontal 0))) = 7 \<and>
   \<not> length (filter (\<lambda>t. direction t = VERTICAL) (fst (CreateTunnels rnd_one_horizontal 0))) \<le> 4"
  by (simp add: CreateTunnels_one_horizontal mkTunnel_def)

text \<open>
  Claim C9, amended. Generation terminates (the two loops are total functions: each
  iteration counts one attempt and a loop stops at 50). The horizontal phase makes
  \<open>a1 \<le> 50\<close> attempts and accepts the list \<open>hs\<close> of at most 4 horizontal tunnels; the
  vertical phase makes \<open>a2 \<le> 50\<close> attempts and appends the list \<open>vs\<close> of vertical
  tunnels, up to a total of 8 (so up to \<open>8 - length hs\<close> of them, not 4). Every attempt
  draws three random numbers. Every accepted tunnel passed \<^verbatim>\<open>IsValidTunnel\<close> against
  the tunnels accepted before it. A phase stops before its 50th attempt only when its
  target is reached; otherwise the list is simply shorter, and nothing fails.
\<close>

theorem CreateTunnels_bounded:
  "\<exists>hs vs a1 a2.
     horizontal_loop rnd k [] 0 = (hs, a1, k + 3 * a1) \<and>
     vertical_loop rnd (k + 3 * a1) hs 0 = (hs @ vs, a2, k + 3 * a1 + 3 * a2) \<and>
     CreateTunnels rnd k = (hs @ vs, k + 3 * a1 + 3 * a2) \<and>
     a1 \<le> 50 \<and> a2 \<le> 50 \<and>
     length hs \<le> 4 \<and> length hs \<le> a1 \<and> length vs \<le> a2 \<and> length hs + length vs \<le> 8 \<and>
     (\<forall>t \<in> set hs. direction t = HORIZONTAL) \<and> (\<forall>t \<in> set vs. direction t = VERTICAL) \<and>
     (\<forall>i < length (hs @ vs). IsValidTunnel (take i (hs @ vs)) ((hs @ vs) ! i)) \<and>
     (a1 < 50 \<longrightarrow> length hs = 4) \<and> (a2 < 50 \<longrightarrow> length hs + length vs = 8)"
proof -
  obtain hs vs a1 a2 where p:
    "horizontal_loop rnd k [] 0 = (hs, a1, k + 3 * a1)"
    "vertical_loop rnd (k + 3 * a1) hs 0 = (hs @ vs, a2, k + 3 * a1 + 3 * a2)"
    "CreateTunnels rnd k = (hs @ vs, k + 3 * a1 + 3 * a2)"
    "horizontal_post k hs a1 (k + 3 * a1)" "a1 < 50 \<longrightarrow> length hs = 4"
    "vertical_post hs (k + 3 * a1) (hs @ vs) a2 (k + 3 * a1 + 3 * a2)"
    "\<forall>t \<in> set vs. direction t = VERTICAL"
    "a2 < 50 \<longrightarrow> length (hs @ vs) = 8"
    using CreateTunnels_phases [of rnd k] by blast
  have h: "a1 \<le> 50" "length hs \<le> 4" "length hs \<le> a1" "\<forall>t \<in> set hs. direction t = HORIZONTAL"
    using p(4) by (simp_all add: horizontal_post_def)
  have v: "a2 \<le> 50" "length vs \<le> a2" "length hs + length vs \<le> 8"
    "\<forall>i < length (hs @ vs). IsValidTunnel (take i (hs @ vs)) ((hs @ vs) ! i)"
    using p(6) by (simp_all add: vertical_post_def accepted_valid_def)
  have e: "a2 < 50 \<longrightarrow> length hs + length vs = 8"
    using p(8) by simp
  have "horizontal_loop rnd k [] 0 = (hs, a1, k + 3 * a1) \<and>
     vertical_loop rnd (k + 3 * a1) hs 0 = (hs @ vs, a2, k + 3 * a1 + 3 * a2) \<and>
     CreateTunnels rnd k = (hs @ vs, k + 3 * a1 + 3 * a2) \<and>
     a1 \<le> 50 \<and> a2 \<le> 50 \<and>
     length hs \<le> 4 \<and> length hs \<le> a1 \<and> length vs \<le> a2 \<and> length hs + length vs \<le> 8 \<and>
     (\<forall>t \<in> set hs. direction t = HORIZONTAL) \<and> (\<forall>t \<in> set vs. direction t = VERTICAL) \<and>
     (\<forall>i < length (hs @ vs). IsValidTunnel (take i (hs @ vs)) ((hs @ vs) ! i)) \<and>
     (a1 < 50 \<longrightarrow> length hs = 4) \<and> (a2 < 50 \<longrightarrow> length hs + length vs = 8)"
    using p(1,2,3,5,7) h v e by (intro conjI)
  then show ?thesis
    by (intro exI)
qed

lemma CreateTunnels_sample_calls: "snd (CreateTunnels rnd_sample 0) = 24"
  by code_simp

theorem CreateTunnels_bounded_witness:
  "\<exists>hs vs a1 a2.
     CreateTunnels rnd_sample 0 = (hs @ vs, 3 * a1 + 3 * a2) \<and>
     a1 < 50 \<and> a2 < 50 \<and> length hs = 4 \<and> length vs = 4 \<and>
     hd hs \<in> set hs \<and> direction (hd hs) = HORIZONTAL \<and>
     hd vs \<in> set vs \<and> direction (hd vs) = VERTICAL \<and>
     0 < length (hs @ vs) \<and> IsValidTunnel (take 0 (hs @ vs)) ((hs @ vs) ! 0)"
proof -
  obtain hs vs a1 a2 where p:
    "CreateTunnels rnd_sample 0 = (hs @ vs, 0 + 3 * a1 + 3 * a2)"
    "(a1 < 50 \<longrightarrow> length hs = 4)" "(a2 < 50 \<longrightarrow> length hs + length vs = 8)"
    "\<forall>t \<in> set hs. direction t = HORIZONTAL" "\<forall>t \<in> set vs. direction t = VERTICAL"
    "\<forall>i < length (hs @ vs). IsValidTunnel (take i (hs @ vs)) ((hs @ vs) ! i)"
    using CreateTunnels_bounded [of rnd_sample 0] by blast
  have "3 * a1 + 3 * a2 = 24"
    using p(1) CreateTunnels_sample_calls by simp
  then have a: "a1 < 50" "a2 < 50"
    by simp_all
  have l: "length hs = 4" "length vs = 4"
    using p(2,3) a by simp_all
  have ne: "hs \<noteq> []" "vs \<noteq> []"
    using l by auto
  have pos: "0 < length (hs @ vs)"
    using l by simp
  have v0: "IsValidTunnel (take 0 (hs @ vs)) ((hs @ vs) ! 0)"
    using p(6) pos by blast
  have c: "CreateTunnels rnd_sample 0 = (hs @ vs, 3 * a1 + 3 * a2)"
    using p(1) by simp
  have d: "hd hs \<in> set hs" "direction (hd hs) = HORIZONTAL"
    "hd vs \<in> set vs" "direction (hd vs) = VERTICAL"
    using p(4,5) ne by simp_all
  have "CreateTunnels rnd_sample 0 = (hs @ vs, 3 * a1 + 3 * a2) \<and>
     a1 < 50 \<and> a2 < 50 \<and> length hs = 4 \<and> length vs = 4 \<and>
     hd hs \<in> set hs \<and> direction (hd hs) = HORIZONTAL \<and>
     hd vs \<in> set vs \<and> direction (hd vs) = VERTICAL \<and>
     0 < length (hs @ vs) \<and> IsValidTunnel (take 0 (hs @ vs)) ((hs @ vs) ! 0)"
    using c a l d pos v0 by (intro conjI)
  then show ?thesis
    by (intro exI)
qed


text \<open>
  Claim C6. \<^verbatim>\<open>CheckTunnelActivation\<close> keeps the three lists' lengths. A tunnel that
  contains the player's tile and is not yet activated becomes activated, and in the same
  call every monster and every dragon whose \<^verbatim>\<open>homeTunnel\<close> is that tunnel leaves the
  tunnel and starts chasing, however many they are. Any other tunnel, and the enemies
  whose home it is, stay as they are.
\<close>

theorem CheckTunnelActivation_broadcast:
  assumes "w' = CheckTunnelActivation w"
    and "gx = float_to_int (vec_x (pos (player w)) / of_int TILE_SIZE)"
    and "gy = float_to_int (vec_y (pos (player w)) / of_int TILE_SIZE)"
  shows "length (tunnels w') = length (tunnels w) \<and>
    length (monsters w') = length (monsters w) \<and>
    length (dragons w') = length (dragons w) \<and>
    (\<forall>i < length (tunnels w).
       (Contains (tunnels w ! i) gx gy \<and> \<not> activated (tunnels w ! i) \<longrightarrow>
          tunnels w' ! i = (tunnels w ! i)\<lparr>activated := True\<rparr> \<and>
          (\<forall>j < length (monsters w). homeTunnel (monsters w ! j) = i \<longrightarrow>
             monsters w' ! j = (monsters w ! j)\<lparr>inTunnel := False, chasing := True\<rparr>) \<and>
          (\<forall>j < length (dragons w). homeTunnel (dragons w ! j) = i \<longrightarrow>
             dragons w' ! j = (dragons w ! j)\<lparr>inTunnel := False, chasing := True\<rparr>)) \<and>
       (\<not> (Contains (tunnels w ! i) gx gy \<and> \<not> activated (tunnels w ! i)) \<longrightarrow>
          tunnels w' ! i = tunnels w ! i \<and>
          (\<forall>j < length (monsters w). homeTunnel (monsters w ! j) = i \<longrightarrow>
             monsters w' ! j = monsters w ! j) \<and>
          (\<forall>j < length (dragons w). homeTunnel (dragons w ! j) = i \<longrightarrow>
             dragons w' ! j = dragons w ! j)))"
proof -
  have g: "gx = playerGridX w" "gy = playerGridY w"
    using assms(2,3) by (simp_all add: playerGridX_def playerGridY_def)
  have w': "w' = w\<lparr>tunnels := map (activate gx gy) (tunnels w),
       monsters := map (release gx gy (tunnels w) (length (tunnels w))) (monsters w),
       dragons := map (release gx gy (tunnels w) (length (tunnels w))) (dragons w)\<rparr>"
    unfolding assms(1) g by (rule CheckTunnelActivation_eq)
  show ?thesis
    unfolding w' by (auto simp: activate_def release_def released_def)
qed

lemma world_in_tunnel_tile:
  "float_to_int (vec_x (pos (player world_in_tunnel)) / of_int TILE_SIZE) = 3 \<and>
   float_to_int (vec_y (pos (player world_in_tunnel)) / of_int TILE_SIZE) = 3"
  by code_simp

theorem CheckTunnelActivation_broadcast_witness:
  "Contains (tunnels world_in_tunnel ! 0) 3 3 \<and> \<not> activated (tunnels world_in_tunnel ! 0) \<and>
   homeTunnel (monsters world_in_tunnel ! 0) = 0 \<and> homeTunnel (dragons world_in_tunnel ! 0) = 0 \<and>
   activated (tunnels (CheckTunnelActivation world_in_tunnel) ! 0) \<and>
   chasing (monsters (CheckTunnelActivation world_in_tunnel) ! 0) \<and>
   \<not> inTunnel (monsters (CheckTunnelActivation world_in_tunnel) ! 0) \<and>
   chasing (dragons (CheckTunnelActivation world_in_tunnel) ! 0) \<and>
   \<not> inTunnel (dragons (CheckTunnelActivation world_in_tunnel) ! 0) \<and>
   \<not> Contains (tunnels world_in_tunnel ! 1) 3 3 \<and>
   monsters (CheckTunnelActivation world_in_tunnel) ! 1 = monsters world_in_tunnel ! 1"
proof -
  have t: "3 = float_to_int (vec_x (pos (player world_in_tunnel)) / of_int TILE_SIZE)"
    "3 = float_to_int (vec_y (pos (player world_in_tunnel)) / of_int TILE_SIZE)"
    using world_in_tunnel_tile by simp_all
  have len: "length (tunnels world_in_tunnel) = 2" "length (monsters world_in_tunnel) = 2"
    "length (dragons world_in_tunnel) = 1"
    by (simp_all add: world_in_tunnel_def)
  have c: "Contains (tunnels world_in_tunnel ! 0) 3 3" "\<not> activated (tunnels world_in_tunnel ! 0)"
    "\<not> Contains (tunnels world_in_tunnel ! 1) 3 3"
    "homeTunnel (monsters world_in_tunnel ! 0) = 0" "homeTunnel (dragons world_in_tunnel ! 0) = 0"
    "homeTunnel (monsters world_in_tunnel ! 1) = 1"
    by (simp_all add: world_in_tunnel_def mkTunnel_def Contains_def Monster_def Dragon_def)
  have all: "\<forall>i < length (tunnels world_in_tunnel).
       (Contains (tunnels world_in_tunnel ! i) 3 3 \<and> \<not> activated (tunnels world_in_tunnel ! i) \<longrightarrow>
          tunnels (CheckTunnelActivation world_in_tunnel) ! i =
            (tunnels world_in_tunnel ! i)\<lparr>activated := True\<rparr> \<and>
          (\<forall>j < length (monsters world_in_tunnel). homeTunnel (monsters world_in_tunnel ! j) = i \<longrightarrow>
             monsters (CheckTunnelActivation world_in_tunnel) ! j =
               (monsters world_in_tunnel ! j)\<lparr>inTunnel := False, chasing := True\<rparr>) \<and>
          (\<forall>j < length (dragons world_in_tunnel). homeTunnel (dragons world_in_tunnel ! j) = i \<longrightarrow>
             dragons (CheckTunnelActivation world_in_tunnel) ! j =
               (dragons world_in_tunnel ! j)\<lparr>inTunnel := False, chasing := True\<rparr>)) \<and>
       (\<not> (Contains (tunnels world_in_tunnel ! i) 3 3 \<and> \<not> activated (tunnels world_in_tunnel ! i)) \<longrightarrow>
          tunnels (CheckTunnelActivation world_in_tunnel) ! i = tunnels world_in_tunnel ! i \<and>
          (\<forall>j < length (monsters world_in_tunnel). homeTunnel (monsters world_in_tunnel ! j) = i \<longrightarrow>
             monsters (CheckTunnelActivation world_in_tunnel) ! j = monsters world_in_tunnel ! j) \<and>
          (\<forall>j < length (dragons world_in_tunnel). homeTunnel (dragons world_in_tunnel ! j) = i \<longrightarrow>
             dragons (CheckTunnelActivation world_in_tunnel) ! j = dragons world_in_tunnel ! j))"
    using CheckTunnelActivation_broadcast [OF refl t] by blast
  have first: "tunnels (CheckTunnelActivation world_in_tunnel) ! 0 =
      (tunnels world_in_tunnel ! 0)\<lparr>activated := True\<rparr>"
    "monsters (CheckTunnelActivation world_in_tunnel) ! 0 =
      (monsters world_in_tunnel ! 0)\<lparr>inTunnel := False, chasing := True\<rparr>"
    "dragons (CheckTunnelActivation world_in_tunnel) ! 0 =
      (dragons world_in_tunnel ! 0)\<lparr>inTunnel := False, chasing := True\<rparr>"
    using all [rule_format, of 0] len c by simp_all
  have second: "monsters (CheckTunnelActivation world_in_tunnel) ! 1 = monsters world_in_tunnel ! 1"
    using all [rule_format, of 1] len c by simp
  show ?thesis
    using first second c by simp
qed

section \<open>One tunnel per tile\<close>

lemma GetTunnelAt_from_None:
  "GetTunnelAt_from i ts x y = None \<longleftrightarrow> (\<forall>t \<in> set ts. \<not> Contains t x y)"
  by (induction ts arbitrary: i) auto

lemma GetTunnelAt_from_Some:
  "GetTunnelAt_from i ts x y = Some j \<Longrightarrow>
     i \<le> j \<and> j - i < length ts \<and> Contains (ts ! (j - i)) x y"
proof (induction ts arbitrary: i)
  case Nil
  then show ?case by simp
next
  case (Cons t ts)
  show ?case
  proof (cases "Contains t x y")
    case True
    then show ?thesis using Cons.prems by simp
  next
    case False
    then have "GetTunnelAt_from (Suc i) ts x y = Some j"
      using Cons.prems by simp
    then have IH: "Suc i \<le> j" "j - Suc i < length ts" "Contains (ts ! (j - Suc i)) x y"
      using Cons.IH by blast+
    have "j - i = Suc (j - Suc i)"
      using IH(1) by simp
    then show ?thesis
      using IH by simp
  qed
qed

lemma GetTunnelAt_Some:
  "GetTunnelAt ts x y = Some j \<Longrightarrow> j < length ts \<and> Contains (ts ! j) x y"
  using GetTunnelAt_from_Some [of 0 ts x y j] by (simp add: GetTunnelAt_def)

lemma GetTunnelAt_None: "GetTunnelAt ts x y = None \<longleftrightarrow> (\<forall>t \<in> set ts. \<not> Contains t x y)"
  by (simp add: GetTunnelAt_def GetTunnelAt_from_None)

lemma GetTunnelAt_order:
  assumes uniq: "\<forall>t \<in> set ts. \<forall>u \<in> set ts. Contains t x y \<and> Contains u x y \<longrightarrow> t = u"
    and same: "set us = set ts"
  shows "map_option (nth us) (GetTunnelAt us x y) = map_option (nth ts) (GetTunnelAt ts x y)"
proof (cases "GetTunnelAt ts x y")
  case None
  then have "GetTunnelAt us x y = None"
    using same by (simp add: GetTunnelAt_None)
  then show ?thesis using None by simp
next
  case (Some j)
  then have j: "j < length ts" "Contains (ts ! j) x y"
    using GetTunnelAt_Some by blast+
  then have "\<exists>t \<in> set us. Contains t x y"
    using same nth_mem by blast
  then obtain j' where Some': "GetTunnelAt us x y = Some j'"
    using GetTunnelAt_None [of us x y] by (cases "GetTunnelAt us x y") auto
  then have j': "j' < length us" "Contains (us ! j') x y"
    using GetTunnelAt_Some by blast+
  have "us ! j' \<in> set ts" "ts ! j \<in> set ts"
    using j j' same nth_mem by blast+
  then have "us ! j' = ts ! j"
    using uniq j(2) j'(2) by blast
  then show ?thesis
    using Some Some' by simp
qed

lemma generated_tile_index:
  assumes "same_layout ts (fst (CreateTunnels rnd k))"
    and "i < length ts" "j < length ts" "Contains (ts ! i) x y" "Contains (ts ! j) x y"
  shows "i = j"
proof (rule ccontr)
  assume "i \<noteq> j"
  then have "\<not> Intersects (ts ! i) (ts ! j)"
    using generated_layout_ok [OF assms(1)] assms(2,3) by blast
  then show False
    using Contains_Intersects [OF assms(4,5)] by simp
qed

text \<open>
  Claim C10. In a generated layout a tile is contained by at most one tunnel. Therefore
  the tunnel \<^verbatim>\<open>GetTunnelAt\<close> finds for a tile is the same for every reordering \<open>us\<close> of
  the tunnel list (the index it returns is the tunnel's position in the list at hand),
  and one call of \<^verbatim>\<open>CheckTunnelActivation\<close> changes the \<^verbatim>\<open>activated\<close> flag of at
  most one tunnel.
\<close>

theorem generated_tile_in_one_tunnel:
  assumes "same_layout ts (fst (CreateTunnels rnd k))"
  shows "(\<forall>i < length ts. \<forall>j < length ts.
            Contains (ts ! i) x y \<and> Contains (ts ! j) x y \<longrightarrow> i = j) \<and>
    (\<forall>us. mset us = mset ts \<longrightarrow>
            map_option (nth us) (GetTunnelAt us x y) = map_option (nth ts) (GetTunnelAt ts x y)) \<and>
    (\<forall>w. tunnels w = ts \<longrightarrow>
       (\<forall>i < length ts. \<forall>j < length ts.
           activated (tunnels (CheckTunnelActivation w) ! i) \<noteq> activated (ts ! i) \<and>
           activated (tunnels (CheckTunnelActivation w) ! j) \<noteq> activated (ts ! j) \<longrightarrow> i = j))"
proof (intro conjI allI impI)
  fix i j assume "i < length ts" "j < length ts" "Contains (ts ! i) x y \<and> Contains (ts ! j) x y"
  then show "i = j"
    using generated_tile_index [OF assms] by blast
next
  fix us assume "mset us = mset ts"
  then have same: "set us = set ts"
    by (rule mset_eq_setD)
  have uniq: "\<forall>t \<in> set ts. \<forall>u \<in> set ts. Contains t x y \<and> Contains u x y \<longrightarrow> t = u"
  proof (intro ballI impI)
    fix t u assume "t \<in> set ts" "u \<in> set ts" and c: "Contains t x y \<and> Contains u x y"
    then obtain i j where "i < length ts" "t = ts ! i" "j < length ts" "u = ts ! j"
      by (metis in_set_conv_nth)
    then show "t = u"
      using generated_tile_index [OF assms, of i j x y] c by simp
  qed
  show "map_option (nth us) (GetTunnelAt us x y) = map_option (nth ts) (GetTunnelAt ts x y)"
    by (rule GetTunnelAt_order [OF uniq same])
next
  fix w i j
  assume w: "tunnels w = ts" and i: "i < length ts" and j: "j < length ts"
    and ch: "activated (tunnels (CheckTunnelActivation w) ! i) \<noteq> activated (ts ! i) \<and>
             activated (tunnels (CheckTunnelActivation w) ! j) \<noteq> activated (ts ! j)"
  have "Contains (ts ! i) (playerGridX w) (playerGridY w)"
    using ch i w by (auto simp: CheckTunnelActivation_eq activate_def split: if_splits)
  moreover have "Contains (ts ! j) (playerGridX w) (playerGridY w)"
    using ch j w by (auto simp: CheckTunnelActivation_eq activate_def split: if_splits)
  ultimately show "i = j"
    using generated_tile_index [OF assms i j] by blast
qed

theorem generated_tile_in_one_tunnel_witness:
  "mset (rev (fst (CreateTunnels rnd_sample 0))) = mset (fst (CreateTunnels rnd_sample 0)) \<and>
   GetTunnelAt (fst (CreateTunnels rnd_sample 0)) 12 8 = Some 5 \<and>
   GetTunnelAt (rev (fst (CreateTunnels rnd_sample 0))) 12 8 = Some 2 \<and>
   map_option (nth (rev (fst (CreateTunnels rnd_sample 0))))
     (GetTunnelAt (rev (fst (CreateTunnels rnd_sample 0))) 12 8) = Some (mkTunnel 12 7 4 VERTICAL)"
proof -
  have a: "GetTunnelAt (fst (CreateTunnels rnd_sample 0)) 12 8 = Some 5"
    by (simp add: CreateTunnels_sample GetTunnelAt_def Contains_def mkTunnel_def)
  have b: "GetTunnelAt (rev (fst (CreateTunnels rnd_sample 0))) 12 8 = Some 2"
    by (simp add: CreateTunnels_sample GetTunnelAt_def Contains_def mkTunnel_def)
  have c: "fst (CreateTunnels rnd_sample 0) ! 5 = mkTunnel 12 7 4 VERTICAL"
    by (simp add: CreateTunnels_sample)
  have m: "mset (rev (fst (CreateTunnels rnd_sample 0))) = mset (fst (CreateTunnels rnd_sample 0))"
    by simp
  have "map_option (nth (rev (fst (CreateTunnels rnd_sample 0))))
      (GetTunnelAt (rev (fst (CreateTunnels rnd_sample 0))) 12 8) =
    map_option (nth (fst (CreateTunnels rnd_sample 0)))
      (GetTunnelAt (fst (CreateTunnels rnd_sample 0)) 12 8)"
    using generated_tile_in_one_tunnel [OF same_layout_refl, of rnd_sample 0 12 8] m by blast
  then show ?thesis
    using a b c m by simp
qed


section \<open>Harpoon hits\<close>

lemma harpoon_monsters_eq:
  "harpoon_monsters coll r ms sc =
     (map (harpoon_kill coll r) ms, sc + 100 * int (length (filter (harpoon_hit coll r) ms)))"
  by (induction ms arbitrary: sc) (simp_all add: harpoon_kill_def harpoon_hit_def)

lemma harpoon_dragons_eq:
  "harpoon_dragons coll r ds sc =
     (map (harpoon_kill coll r) ds, sc + 200 * int (length (filter (harpoon_hit coll r) ds)))"
  by (induction ds arbitrary: sc) (simp_all add: harpoon_kill_def harpoon_hit_def)

lemma handle_harpoon_eq:
  assumes "hasHarpoon (player w)" "harpoonTimer (player w) > 0"
  shows "handle_harpoon coll w =
     w\<lparr>monsters := map (harpoon_kill coll (harpoonRect (player w))) (monsters w),
       dragons := map (harpoon_kill coll (harpoonRect (player w))) (dragons w),
       player := (player w)\<lparr>score := score (player w)
          + 100 * int (length (filter (harpoon_hit coll (harpoonRect (player w))) (monsters w)))
          + 200 * int (length (filter (harpoon_hit coll (harpoonRect (player w))) (dragons w)))\<rparr>\<rparr>"
  using assms by (simp add: handle_harpoon_def Let_def harpoon_monsters_eq harpoon_dragons_eq)

lemma harpoon_kill_none:
  assumes "\<forall>e \<in> set es. \<not> harpoon_hit coll r e"
  shows "map (harpoon_kill coll r) es = es" "filter (harpoon_hit coll r) es = []"
  using assms by (induction es) (simp_all add: harpoon_kill_def)

text \<open>
  Claim C4. While the harpoon is active (\<^verbatim>\<open>hasHarpoon && harpoonTimer > 0\<close>), the
  harpoon block marks dead every enemy that is alive and whose bounds overlap the harpoon
  rectangle, and leaves every other enemy (a dead one that overlaps included) as it is;
  the score grows by 100 for each monster hit and 200 for each dragon hit, so by 300 when
  one monster and one dragon are hit; nothing else in the world changes. When no live
  enemy overlaps the rectangle, the world is unchanged.
\<close>

theorem handle_harpoon_kills_and_scores:
  assumes "hasHarpoon (player w)" and "harpoonTimer (player w) > 0"
    and "w' = handle_harpoon coll w" and "r = harpoonRect (player w)"
  shows "length (monsters w') = length (monsters w) \<and> length (dragons w') = length (dragons w) \<and>
    (\<forall>j < length (monsters w).
       (e_alive (monsters w ! j) \<and> coll r (Enemy_Bounds (monsters w ! j)) \<longrightarrow>
          monsters w' ! j = (monsters w ! j)\<lparr>e_alive := False\<rparr>) \<and>
       (\<not> (e_alive (monsters w ! j) \<and> coll r (Enemy_Bounds (monsters w ! j))) \<longrightarrow>
          monsters w' ! j = monsters w ! j)) \<and>
    (\<forall>j < length (dragons w).
       (e_alive (dragons w ! j) \<and> coll r (Enemy_Bounds (dragons w ! j)) \<longrightarrow>
          dragons w' ! j = (dragons w ! j)\<lparr>e_alive := False\<rparr>) \<and>
       (\<not> (e_alive (dragons w ! j) \<and> coll r (Enemy_Bounds (dragons w ! j))) \<longrightarrow>
          dragons w' ! j = dragons w ! j)) \<and>
    score (player w') = score (player w)
       + 100 * int (length (filter (\<lambda>m. e_alive m \<and> coll r (Enemy_Bounds m)) (monsters w)))
       + 200 * int (length (filter (\<lambda>d. e_alive d \<and> coll r (Enemy_Bounds d)) (dragons w))) \<and>
    w' = w\<lparr>monsters := monsters w', dragons := dragons w',
           player := (player w)\<lparr>score := score (player w')\<rparr>\<rparr> \<and>
    ((\<forall>e \<in> set (monsters w) \<union> set (dragons w). coll r (Enemy_Bounds e) \<longrightarrow> \<not> e_alive e) \<longrightarrow>
       w' = w)"
proof -
  have hit: "harpoon_hit coll r = (\<lambda>e. e_alive e \<and> coll r (Enemy_Bounds e))"
    by (rule ext) (simp add: harpoon_hit_def)
  have w': "w' = w\<lparr>monsters := map (harpoon_kill coll r) (monsters w),
       dragons := map (harpoon_kill coll r) (dragons w),
       player := (player w)\<lparr>score := score (player w)
          + 100 * int (length (filter (harpoon_hit coll r) (monsters w)))
          + 200 * int (length (filter (harpoon_hit coll r) (dragons w)))\<rparr>\<rparr>"
    unfolding assms(3,4) by (rule handle_harpoon_eq [OF assms(1,2)])
  have none: "w' = w"
    if "\<forall>e \<in> set (monsters w) \<union> set (dragons w). coll r (Enemy_Bounds e) \<longrightarrow> \<not> e_alive e"
  proof -
    have "\<forall>e \<in> set (monsters w). \<not> harpoon_hit coll r e" "\<forall>e \<in> set (dragons w). \<not> harpoon_hit coll r e"
      using that by (auto simp: harpoon_hit_def)
    then show ?thesis
      unfolding w' by (simp add: harpoon_kill_none)
  qed
  have parts: "monsters w' = map (harpoon_kill coll r) (monsters w)"
    "dragons w' = map (harpoon_kill coll r) (dragons w)"
    "score (player w') = score (player w)
       + 100 * int (length (filter (\<lambda>m. e_alive m \<and> coll r (Enemy_Bounds m)) (monsters w)))
       + 200 * int (length (filter (\<lambda>d. e_alive d \<and> coll r (Enemy_Bounds d)) (dragons w)))"
    unfolding w' hit by simp_all
  have frame: "w' = w\<lparr>monsters := monsters w', dragons := dragons w',
           player := (player w)\<lparr>score := score (player w')\<rparr>\<rparr>"
    unfolding w' by simp
  have ms: "\<forall>j < length (monsters w).
       (e_alive (monsters w ! j) \<and> coll r (Enemy_Bounds (monsters w ! j)) \<longrightarrow>
          monsters w' ! j = (monsters w ! j)\<lparr>e_alive := False\<rparr>) \<and>
       (\<not> (e_alive (monsters w ! j) \<and> coll r (Enemy_Bounds (monsters w ! j))) \<longrightarrow>
          monsters w' ! j = monsters w ! j)"
    unfolding parts by (simp add: harpoon_kill_def harpoon_hit_def)
  have ds: "\<forall>j < length (dragons w).
       (e_alive (dragons w ! j) \<and> coll r (Enemy_Bounds (dragons w ! j)) \<longrightarrow>
          dragons w' ! j = (dragons w ! j)\<lparr>e_alive := False\<rparr>) \<and>
       (\<not> (e_alive (dragons w ! j) \<and> coll r (Enemy_Bounds (dragons w ! j))) \<longrightarrow>
          dragons w' ! j = dragons w ! j)"
    unfolding parts by (simp add: harpoon_kill_def harpoon_hit_def)
  have len: "length (monsters w') = length (monsters w)" "length (dragons w') = length (dragons w)"
    unfolding parts by simp_all
  show ?thesis
    using len ms ds parts(3) frame none by (intro conjI impI)
qed

lemma world_harpoon_rect:
  "harpoonRect (player world_harpoon) = \<lparr>rec_x = 116, rec_y = 114, rec_width = 50, rec_height = 4\<rparr>"
  by (simp add: world_harpoon_def harpoonRect_def mkPlayer_def MakeNormalizedRect_def Let_def
      TILE_SIZE_def cdiv_def)

theorem handle_harpoon_kills_and_scores_witness:
  "hasHarpoon (player world_harpoon) \<and> harpoonTimer (player world_harpoon) > 0 \<and>
   score (player world_harpoon) = 0 \<and>
   score (player (handle_harpoon CheckCollisionRecs world_harpoon)) = 300 \<and>
   monsters (handle_harpoon CheckCollisionRecs world_harpoon) ! 0
     = (Monster 130 100 0)\<lparr>e_alive := False\<rparr> \<and>
   monsters (handle_harpoon CheckCollisionRecs world_harpoon) ! 1
     = (Monster 140 100 0)\<lparr>e_alive := False\<rparr> \<and>
   dragons (handle_harpoon CheckCollisionRecs world_harpoon) ! 0
     = (Dragon 150 110 1)\<lparr>e_alive := False\<rparr>"
proof -
  define r where "r = harpoonRect (player world_harpoon)"
  have r: "r = \<lparr>rec_x = 116, rec_y = 114, rec_width = 50, rec_height = 4\<rparr>"
    unfolding r_def by (rule world_harpoon_rect)
  have a: "hasHarpoon (player world_harpoon)" "harpoonTimer (player world_harpoon) > 0"
    "score (player world_harpoon) = 0"
    by (simp_all add: world_harpoon_def mkPlayer_def)
  have ms: "monsters world_harpoon = [Monster 130 100 0, (Monster 140 100 0)\<lparr>e_alive := False\<rparr>]"
    and ds: "dragons world_harpoon = [Dragon 150 110 1]"
    by (simp_all add: world_harpoon_def)
  have hits: "e_alive (Monster 130 100 0) \<and> CheckCollisionRecs r (Enemy_Bounds (Monster 130 100 0))"
    "\<not> e_alive ((Monster 140 100 0)\<lparr>e_alive := False\<rparr>)"
    "CheckCollisionRecs r (Enemy_Bounds ((Monster 140 100 0)\<lparr>e_alive := False\<rparr>))"
    "e_alive (Dragon 150 110 1) \<and> CheckCollisionRecs r (Enemy_Bounds (Dragon 150 110 1))"
    by (simp_all add: r Monster_def Dragon_def Enemy_Bounds_def CheckCollisionRecs_def TILE_SIZE_def)
  note T = handle_harpoon_kills_and_scores [OF a(1,2) refl r_def, of CheckCollisionRecs]
  have m0: "monsters (handle_harpoon CheckCollisionRecs world_harpoon) ! 0
     = (Monster 130 100 0)\<lparr>e_alive := False\<rparr>"
    using T [THEN conjunct2, THEN conjunct2, THEN conjunct1, rule_format, of 0] hits(1)
    by (simp add: ms)
  have m1: "monsters (handle_harpoon CheckCollisionRecs world_harpoon) ! 1
     = (Monster 140 100 0)\<lparr>e_alive := False\<rparr>"
    using T [THEN conjunct2, THEN conjunct2, THEN conjunct1, rule_format, of 1] hits(2)
    by (simp add: ms)
  have d0: "dragons (handle_harpoon CheckCollisionRecs world_harpoon) ! 0
     = (Dragon 150 110 1)\<lparr>e_alive := False\<rparr>"
    using T [THEN conjunct2, THEN conjunct2, THEN conjunct2, THEN conjunct1, rule_format, of 0] hits(4)
    by (simp add: ds)
  have sc: "score (player (handle_harpoon CheckCollisionRecs world_harpoon)) = 300"
    using T [THEN conjunct2, THEN conjunct2, THEN conjunct2, THEN conjunct2, THEN conjunct1] hits a(3)
    by (simp add: ms ds)
  show ?thesis
    using a m0 m1 d0 sc by simp
qed


section \<open>Collision with the player and death resolution\<close>

lemma Player_Bounds_alive: "Player_Bounds (p\<lparr>alive := a\<rparr>) = Player_Bounds p"
  by (simp add: Player_Bounds_def)

lemma hits_player_eq:
  "hits_player coll es p =
     (if \<exists>e \<in> set es. e_alive e \<and> coll (Player_Bounds p) (Enemy_Bounds e)
      then p\<lparr>alive := False\<rparr> else p)"
proof (induction es arbitrary: p)
  case Nil
  then show ?case by simp
next
  case (Cons e es)
  show ?case
    by (cases "e_alive e \<and> coll (Player_Bounds p) (Enemy_Bounds e)")
      (auto simp: Cons.IH Player_Bounds_alive)
qed

lemma player_collisions_eq:
  "player_collisions coll w =
     (if \<exists>e \<in> set (monsters w) \<union> set (dragons w).
           e_alive e \<and> coll (Player_Bounds (player w)) (Enemy_Bounds e)
      then w\<lparr>player := (player w)\<lparr>alive := False\<rparr>\<rparr> else w)"
  by (auto simp: player_collisions_def Let_def hits_player_eq Player_Bounds_alive)

lemma handle_harpoon_frame:
  "alive (player (handle_harpoon coll w)) = alive (player w) \<and>
   lives (player (handle_harpoon coll w)) = lives (player w) \<and>
   state (handle_harpoon coll w) = state w \<and>
   highScore (handle_harpoon coll w) = highScore w \<and>
   respawnTimer (handle_harpoon coll w) = respawnTimer w \<and>
   highscore_file (handle_harpoon coll w) = highscore_file w"
  by (simp add: handle_harpoon_def Let_def split: prod.splits)

lemma collect_fruit_frame:
  "alive (player (collect_fruit coll w)) = alive (player w) \<and>
   lives (player (collect_fruit coll w)) = lives (player w) \<and>
   state (collect_fruit coll w) = state w \<and>
   highScore (collect_fruit coll w) = highScore w \<and>
   respawnTimer (collect_fruit coll w) = respawnTimer w \<and>
   highscore_file (collect_fruit coll w) = highscore_file w \<and>
   monsters (collect_fruit coll w) = monsters w \<and>
   dragons (collect_fruit coll w) = dragons w"
  by (simp add: collect_fruit_def)

lemma death_resolution_dead:
  assumes "\<not> alive (player w)"
  shows "lives (player (death_resolution can_open w)) = lives (player w) - 1 \<and>
    deathFlashTimer (player (death_resolution can_open w)) = DEATH_FLASH_TIME \<and>
    score (player (death_resolution can_open w)) = score (player w) \<and>
    (lives (player w) - 1 > 0 \<longrightarrow>
       respawnTimer (death_resolution can_open w) = RESPAWN_DELAY \<and>
       state (death_resolution can_open w) = state w \<and>
       highScore (death_resolution can_open w) = highScore w \<and>
       highscore_file (death_resolution can_open w) = highscore_file w) \<and>
    (\<not> lives (player w) - 1 > 0 \<longrightarrow>
       respawnTimer (death_resolution can_open w) = respawnTimer w \<and>
       state (death_resolution can_open w) = GAMEOVER \<and>
       highScore (death_resolution can_open w) =
         (if score (player w) > highScore w then score (player w) else highScore w) \<and>
       highscore_file (death_resolution can_open w) =
         (if score (player w) > highScore w \<and> can_open then Some (score (player w))
          else highscore_file w))"
  using assms by (simp add: death_resolution_def SaveHighScore_def Let_def)

text \<open>
  The win check that follows death resolution leaves the world alone while an enemy is
  alive. (When the harpoon kills the last enemies in the frame in which the player
  dies, the win check runs after death resolution and sets the state to \<open>WIN\<close>.)
\<close>

lemma all_dead_iff: "all_dead es \<longleftrightarrow> (\<forall>e \<in> set es. \<not> e_alive e)"
  by (induction es) auto

lemma win_check_alive:
  assumes "\<exists>e \<in> set (monsters w) \<union> set (dragons w). e_alive e"
  shows "win_check can_open w = w"
  using assms by (auto simp: win_check_def Let_def all_dead_iff)

text \<open>
  Claim C5. Let the player's bounds overlap a live enemy when the collision block runs
  (\<open>w1\<close> is the world after it, \<open>w2\<close> the world after the harpoon and fruit blocks that
  follow, where the frame's score is final, \<open>w3\<close> the world after death resolution).
  The player is then marked dead. With \<open>lives = 1\<close>, death resolution sets \<open>lives\<close> to
  0 and the state to \<open>GAMEOVER\<close>, and the high score, in memory and in the file,
  changes only if the score is greater than the stored high score (the file only if it
  can be opened). With \<open>lives > 1\<close> it takes one life, starts the respawn countdown at
  \<open>RESPAWN_DELAY\<close>, and leaves the state and the high score alone.
\<close>

theorem death_resolution_last_life:
  assumes "\<exists>e \<in> set (monsters w) \<union> set (dragons w).
             e_alive e \<and> coll (Player_Bounds (player w)) (Enemy_Bounds e)"
    and "w1 = player_collisions coll w"
    and "w2 = collect_fruit coll (handle_harpoon coll w1)"
    and "w3 = death_resolution can_open w2"
  shows "\<not> alive (player w1) \<and> \<not> alive (player w2) \<and>
    deathFlashTimer (player w3) = DEATH_FLASH_TIME \<and>
    (lives (player w) = 1 \<longrightarrow>
       lives (player w3) = 0 \<and> state w3 = GAMEOVER \<and> respawnTimer w3 = respawnTimer w \<and>
       highScore w3 = (if score (player w2) > highScore w then score (player w2) else highScore w) \<and>
       highscore_file w3 =
         (if score (player w2) > highScore w \<and> can_open then Some (score (player w2))
          else highscore_file w)) \<and>
    (lives (player w) > 1 \<longrightarrow>
       lives (player w3) = lives (player w) - 1 \<and> respawnTimer w3 = RESPAWN_DELAY \<and>
       state w3 = state w \<and> highScore w3 = highScore w \<and> highscore_file w3 = highscore_file w)"
proof -
  have w1: "w1 = w\<lparr>player := (player w)\<lparr>alive := False\<rparr>\<rparr>"
    using assms(1) unfolding assms(2) by (simp add: player_collisions_eq)
  have f: "alive (player w2) = alive (player w1)" "lives (player w2) = lives (player w1)"
    "state w2 = state w1" "highScore w2 = highScore w1" "respawnTimer w2 = respawnTimer w1"
    "highscore_file w2 = highscore_file w1"
    unfolding assms(3) by (simp_all add: collect_fruit_frame handle_harpoon_frame)
  have g: "alive (player w1) = False" "lives (player w1) = lives (player w)"
    "state w1 = state w" "highScore w1 = highScore w" "respawnTimer w1 = respawnTimer w"
    "highscore_file w1 = highscore_file w"
    unfolding w1 by simp_all
  have dead: "\<not> alive (player w2)"
    using f(1) g(1) by simp
  note D = death_resolution_dead [OF dead, of can_open, folded assms(4)]
  have last: "lives (player w3) = 0 \<and> state w3 = GAMEOVER \<and> respawnTimer w3 = respawnTimer w \<and>
       highScore w3 = (if score (player w2) > highScore w then score (player w2) else highScore w) \<and>
       highscore_file w3 =
         (if score (player w2) > highScore w \<and> can_open then Some (score (player w2))
          else highscore_file w)"
    if "lives (player w) = 1"
    using D that f g by simp
  have more: "lives (player w3) = lives (player w) - 1 \<and> respawnTimer w3 = RESPAWN_DELAY \<and>
       state w3 = state w \<and> highScore w3 = highScore w \<and> highscore_file w3 = highscore_file w"
    if "lives (player w) > 1"
    using D that f g by simp
  have flash: "deathFlashTimer (player w3) = DEATH_FLASH_TIME"
    using D by simp
  show ?thesis
    using g(1) dead flash last more by (intro conjI impI) simp_all
qed

lemma world_last_life_collides:
  "\<exists>e \<in> set (monsters world_last_life) \<union> set (dragons world_last_life).
      e_alive e \<and> CheckCollisionRecs (Player_Bounds (player world_last_life)) (Enemy_Bounds e)"
  by (simp add: world_last_life_def mkWorld_def mkPlayer_def Monster_def Player_Bounds_def
      Enemy_Bounds_def CheckCollisionRecs_def TILE_SIZE_def)

lemma world_last_life_score:
  "score (player (collect_fruit CheckCollisionRecs
      (handle_harpoon CheckCollisionRecs (player_collisions CheckCollisionRecs world_last_life)))) = 700"
  by (simp add: world_last_life_def mkWorld_def mkPlayer_def mkFruit_def Monster_def Player_Bounds_def
      Enemy_Bounds_def Fruit_Bounds_def CheckCollisionRecs_def TILE_SIZE_def SCREEN_W_def SCREEN_H_def
      GRID_WIDTH_def GRID_HEIGHT_def cdiv_def
      player_collisions_def handle_harpoon_def collect_fruit_def Let_def)

theorem death_resolution_last_life_witness:
  "lives (player world_last_life) = 1 \<and> highScore world_last_life = 500 \<and>
   lives (player (death_resolution True (collect_fruit CheckCollisionRecs
      (handle_harpoon CheckCollisionRecs (player_collisions CheckCollisionRecs world_last_life))))) = 0 \<and>
   state (death_resolution True (collect_fruit CheckCollisionRecs
      (handle_harpoon CheckCollisionRecs (player_collisions CheckCollisionRecs world_last_life)))) = GAMEOVER \<and>
   highScore (death_resolution True (collect_fruit CheckCollisionRecs
      (handle_harpoon CheckCollisionRecs (player_collisions CheckCollisionRecs world_last_life)))) = 700 \<and>
   highscore_file (death_resolution True (collect_fruit CheckCollisionRecs
      (handle_harpoon CheckCollisionRecs (player_collisions CheckCollisionRecs world_last_life)))) = Some 700"
proof -
  have l: "lives (player world_last_life) = 1" "highScore world_last_life = 500"
    by (simp_all add: world_last_life_def mkPlayer_def)
  show ?thesis
    using death_resolution_last_life [of world_last_life CheckCollisionRecs,
        OF world_last_life_collides refl refl refl, of True]
      l world_last_life_score
    by simp
qed


section \<open>Intersection against its reference definition\<close>

lemma interval_overlap:
  "{a ..< a + l} \<inter> {b ..< b + m} \<noteq> {} \<longleftrightarrow> a < b + m \<and> b < a + l \<and> 0 < l \<and> 0 < m"
  for a b l m :: int
proof
  assume "{a ..< a + l} \<inter> {b ..< b + m} \<noteq> {}"
  then obtain x where "x \<in> {a ..< a + l} \<inter> {b ..< b + m}"
    by blast
  then have "a \<le> x" "x < a + l" "b \<le> x" "x < b + m"
    by simp_all
  then show "a < b + m \<and> b < a + l \<and> 0 < l \<and> 0 < m"
    by linarith
next
  assume r: "a < b + m \<and> b < a + l \<and> 0 < l \<and> 0 < m"
  then have "max a b \<in> {a ..< a + l} \<inter> {b ..< b + m}"
    by auto
  then show "{a ..< a + l} \<inter> {b ..< b + m} \<noteq> {}"
    by blast
qed

lemma Intersects_spec_iff:
  assumes "direction a \<noteq> NONE" "direction b \<noteq> NONE"
  shows "Intersects_spec a b \<longleftrightarrow>
     Intersects a b \<and> (direction a = direction b \<longrightarrow> 0 < length_t a \<and> 0 < length_t b)"
  using assms
  by (cases "direction a"; cases "direction b")
    (auto simp: Intersects_spec_def Intersects_def interval_overlap)

text \<open>
  The lengths matter only for tunnels of the same orientation, and only when one of them
  is not positive (no tunnel of the game is: generation draws every length from 4 to 8):
  the half-open span is then empty, while \<^verbatim>\<open>Intersects\<close> compares end points.
\<close>

lemma Intersects_empty_span:
  "Intersects (mkTunnel 1 0 0 HORIZONTAL) (mkTunnel 0 0 5 HORIZONTAL) \<and>
   \<not> Intersects_spec (mkTunnel 1 0 0 HORIZONTAL) (mkTunnel 0 0 5 HORIZONTAL)"
  by (simp add: Intersects_def Intersects_spec_def mkTunnel_def)

text \<open>
  Claim C8. On the tunnels of the game, whose orientation is horizontal or vertical (the
  spec's data model has no other; the source's enumeration also has \<^verbatim>\<open>NONE\<close>, which
  no tunnel is built with) and whose length is positive (generation draws it from 4 to
  8), \<^verbatim>\<open>Intersects\<close> agrees with the reference definition: tunnels of the same
  orientation intersect exactly when they share the perpendicular coordinate and their
  half-open spans overlap, tunnels of opposite orientation exactly when each one's fixed
  coordinate lies within the other's span; and \<^verbatim>\<open>Intersects\<close> is symmetric. For
  opposite orientations the agreement needs no hypothesis on the lengths; for equal
  orientations the reference definition holds exactly when \<^verbatim>\<open>Intersects\<close> holds and
  both lengths are positive.
\<close>

theorem Intersects_matches_reference:
  assumes "direction a \<noteq> NONE" and "direction b \<noteq> NONE"
  shows "Intersects a b = Intersects b a \<and>
    (0 < length_t a \<and> 0 < length_t b \<longrightarrow> Intersects a b = Intersects_spec a b) \<and>
    (direction a \<noteq> direction b \<longrightarrow> Intersects a b = Intersects_spec a b) \<and>
    (direction a = direction b \<longrightarrow>
       Intersects_spec a b = (Intersects a b \<and> 0 < length_t a \<and> 0 < length_t b))"
  using Intersects_sym [OF assms] Intersects_spec_iff [OF assms] by auto

theorem Intersects_matches_reference_witness:
  "direction (mkTunnel 3 7 4 HORIZONTAL) \<noteq> NONE \<and> direction (mkTunnel 5 5 6 VERTICAL) \<noteq> NONE \<and>
   0 < length_t (mkTunnel 3 7 4 HORIZONTAL) \<and> 0 < length_t (mkTunnel 5 5 6 VERTICAL) \<and>
   Intersects (mkTunnel 3 7 4 HORIZONTAL) (mkTunnel 5 5 6 VERTICAL) \<and>
   Intersects (mkTunnel 5 5 6 VERTICAL) (mkTunnel 3 7 4 HORIZONTAL) \<and>
   Intersects_spec (mkTunnel 3 7 4 HORIZONTAL) (mkTunnel 5 5 6 VERTICAL)"
proof -
  have d: "direction (mkTunnel 3 7 4 HORIZONTAL) \<noteq> NONE" "direction (mkTunnel 5 5 6 VERTICAL) \<noteq> NONE"
    "0 < length_t (mkTunnel 3 7 4 HORIZONTAL)" "0 < length_t (mkTunnel 5 5 6 VERTICAL)"
    "direction (mkTunnel 3 7 4 HORIZONTAL) \<noteq> direction (mkTunnel 5 5 6 VERTICAL)"
    by (simp_all add: mkTunnel_def)
  have i: "Intersects (mkTunnel 3 7 4 HORIZONTAL) (mkTunnel 5 5 6 VERTICAL)"
    by (simp add: Intersects_def mkTunnel_def)
  show ?thesis
    using Intersects_matches_reference [OF d(1,2)] d i by simp
qed

section \<open>Monster and dragon behaviour\<close>

lemma MoveInTunnel_same: "Monster_MoveInTunnel home e = Dragon_MoveInTunnel home e"
  by (simp add: Monster_MoveInTunnel_def Dragon_MoveInTunnel_def Monster_speed_def Dragon_speed_def)

lemma Monster_MoveTowards_chase_step:
  "Monster_MoveTowards target e = chase_step Monster_speed Monster_chaseSpeed target e"
  by (simp add: Monster_MoveTowards_def chase_step_def Let_def)

lemma Dragon_MoveTowards_chase_step:
  "Dragon_MoveTowards target e = chase_step Dragon_speed Dragon_chaseSpeed target e"
  by (simp add: Dragon_MoveTowards_def chase_step_def Let_def)

lemma chase_step_pos:
  "e_pos (chase_step s c target e) =
     (if \<not> e_alive e \<or> inTunnel e then e_pos e
      else \<lparr>vec_x = (if vec_x target > vec_x (e_pos e)
                     then vec_x (e_pos e) + (if chasing e then c else s)
                     else if vec_x target < vec_x (e_pos e)
                     then vec_x (e_pos e) - (if chasing e then c else s) else vec_x (e_pos e)),
            vec_y = (if vec_y target > vec_y (e_pos e)
                     then vec_y (e_pos e) + (if chasing e then c else s)
                     else if vec_y target < vec_y (e_pos e)
                     then vec_y (e_pos e) - (if chasing e then c else s) else vec_y (e_pos e))\<rparr>)"
  by (simp add: chase_step_def Let_def)

lemma chase_steps_agree:
  "chase_step (1 / 2) (12 / 10) target e = chase_step (1 / 2) (15 / 10) target e \<longleftrightarrow>
     \<not> e_alive e \<or> inTunnel e \<or> \<not> chasing e \<or>
     (vec_x target = vec_x (e_pos e) \<and> vec_y target = vec_y (e_pos e))"
proof
  assume eq: "chase_step (1 / 2) (12 / 10) target e = chase_step (1 / 2) (15 / 10) target e"
  show "\<not> e_alive e \<or> inTunnel e \<or> \<not> chasing e \<or>
     (vec_x target = vec_x (e_pos e) \<and> vec_y target = vec_y (e_pos e))"
  proof (rule ccontr)
    assume n: "\<not> (\<not> e_alive e \<or> inTunnel e \<or> \<not> chasing e \<or>
     (vec_x target = vec_x (e_pos e) \<and> vec_y target = vec_y (e_pos e)))"
    have "e_pos (chase_step (1 / 2) (12 / 10) target e) = e_pos (chase_step (1 / 2) (15 / 10) target e)"
      using eq by simp
    then show False
      using n unfolding chase_step_pos by (auto split: if_splits)
  qed
next
  assume "\<not> e_alive e \<or> inTunnel e \<or> \<not> chasing e \<or>
     (vec_x target = vec_x (e_pos e) \<and> vec_y target = vec_y (e_pos e))"
  then show "chase_step (1 / 2) (12 / 10) target e = chase_step (1 / 2) (15 / 10) target e"
    by (auto simp: chase_step_def Let_def)
qed

text \<open>
  Claim C3, as stated, fails: a chasing monster moves \<open>1.2\<close> per axis and frame, a
  chasing dragon \<open>1.5\<close>. From the same state and towards the same target the two chase
  steps give different positions.
\<close>

theorem chase_speed_counterexample:
  "vec_x (e_pos (Monster_MoveTowards target_right chaser)) = 12 / 10 \<and>
   vec_x (e_pos (Dragon_MoveTowards target_right chaser)) = 15 / 10 \<and>
   Monster_MoveTowards target_right chaser \<noteq> Dragon_MoveTowards target_right chaser"
proof -
  have m: "vec_x (e_pos (Monster_MoveTowards target_right chaser)) = 12 / 10"
    by (simp add: Monster_MoveTowards_def chaser_def target_right_def Monster_def
        Monster_chaseSpeed_def Let_def)
  have d: "vec_x (e_pos (Dragon_MoveTowards target_right chaser)) = 15 / 10"
    by (simp add: Dragon_MoveTowards_def chaser_def target_right_def Monster_def
        Dragon_chaseSpeed_def Let_def)
  have "Monster_MoveTowards target_right chaser \<noteq> Dragon_MoveTowards target_right chaser"
  proof
    assume "Monster_MoveTowards target_right chaser = Dragon_MoveTowards target_right chaser"
    then have "vec_x (e_pos (Monster_MoveTowards target_right chaser)) =
        vec_x (e_pos (Dragon_MoveTowards target_right chaser))"
      by simp
    then show False
      unfolding m d by simp
  qed
  then show ?thesis
    using m d by simp
qed

text \<open>
  Claim C3, amended. The two kinds have the same data and constructor and the same patrol
  step for every state. Their chase steps follow one rule, \<open>chase_step\<close>, and differ in
  its chase speed (monster \<open>1.2\<close>, dragon \<open>1.5\<close>; the patrol speed is \<open>0.5\<close> for both),
  beside the render symbol and the score per kill (100 and 200, see the harpoon block):
  from the same state and target the two chase steps give the same next state exactly
  when the enemy does not move at chase speed, that is when it is dead, still in its
  tunnel, not chasing, or already at the target.
\<close>

theorem monster_dragon_same_up_to_chase_speed:
  "Monster x y tunnel = Dragon x y tunnel \<and>
   Monster_MoveInTunnel home e = Dragon_MoveInTunnel home e \<and>
   Monster_MoveTowards target e = chase_step (1 / 2) (12 / 10) target e \<and>
   Dragon_MoveTowards target e = chase_step (1 / 2) (15 / 10) target e \<and>
   (Monster_MoveTowards target e = Dragon_MoveTowards target e \<longleftrightarrow>
      \<not> e_alive e \<or> inTunnel e \<or> \<not> chasing e \<or>
      (vec_x target = vec_x (e_pos e) \<and> vec_y target = vec_y (e_pos e)))"
proof -
  have m: "Monster_MoveTowards target e = chase_step (1 / 2) (12 / 10) target e"
    using Monster_MoveTowards_chase_step [of target e]
    by (simp add: Monster_speed_def Monster_chaseSpeed_def)
  have d: "Dragon_MoveTowards target e = chase_step (1 / 2) (15 / 10) target e"
    using Dragon_MoveTowards_chase_step [of target e]
    by (simp add: Dragon_speed_def Dragon_chaseSpeed_def)
  have c: "Monster x y tunnel = Dragon x y tunnel"
    by (simp add: Monster_def Dragon_def)
  show ?thesis
    unfolding m d using c MoveInTunnel_same [of home e] chase_steps_agree [of target e]
    by simp
qed

theorem monster_dragon_same_up_to_chase_speed_witness:
  "\<not> chasing (Monster 0 0 0) \<and>
   Monster_MoveTowards target_right (Monster 0 0 0) = Dragon_MoveTowards target_right (Monster 0 0 0) \<and>
   Monster_MoveInTunnel (mkTunnel 3 7 4 HORIZONTAL) chaser = Dragon_MoveInTunnel (mkTunnel 3 7 4 HORIZONTAL) chaser"
proof -
  have n: "\<not> chasing (Monster 0 0 0)"
    by (simp add: Monster_def)
  have a: "Monster_MoveTowards target_right (Monster 0 0 0) =
      Dragon_MoveTowards target_right (Monster 0 0 0)"
    using monster_dragon_same_up_to_chase_speed
      [of 0 0 0 "mkTunnel 3 7 4 HORIZONTAL" "Monster 0 0 0" target_right] n
    by blast
  have b: "Monster_MoveInTunnel (mkTunnel 3 7 4 HORIZONTAL) chaser =
      Dragon_MoveInTunnel (mkTunnel 3 7 4 HORIZONTAL) chaser"
    using monster_dragon_same_up_to_chase_speed
      [of 0 0 0 "mkTunnel 3 7 4 HORIZONTAL" chaser target_right]
    by blast
  show ?thesis
    using n a b by (intro conjI)
qed

section \<open>Patrol movement\<close>

lemma div32_le: "a div 32 \<le> s \<longleftrightarrow> a < 32 * (s + 1)" for a s :: int
proof -
  define q where "q = a div 32"
  define r where "r = a mod 32"
  have "a = 32 * q + r" "0 \<le> r" "r < 32"
    by (simp_all add: q_def r_def)
  then have "q \<le> s \<longleftrightarrow> a < 32 * (s + 1)"
    by auto
  then show ?thesis
    by (simp add: q_def)
qed

lemma div32_ge: "k \<le> a div 32 \<longleftrightarrow> 32 * k \<le> a" for a k :: int
proof -
  define q where "q = a div 32"
  define r where "r = a mod 32"
  have "a = 32 * q + r" "0 \<le> r" "r < 32"
    by (simp_all add: q_def r_def)
  then have "k \<le> q \<longleftrightarrow> 32 * k \<le> a"
    by auto
  then show ?thesis
    by (simp add: q_def)
qed

lemma float_to_int_of_int: "float_to_int (of_int z) = z"
  by (simp add: float_to_int_def)

lemma cdiv_nonneg: "0 \<le> a \<Longrightarrow> cdiv a TILE_SIZE = a div 32"
  by (cases "a = 0") (simp_all add: cdiv_def TILE_SIZE_def)

lemma cdiv_nonpos: "a \<le> 0 \<Longrightarrow> cdiv a TILE_SIZE \<le> 0"
proof -
  assume "a \<le> 0"
  then have "sgn a \<le> 0" "0 \<le> \<bar>a\<bar> div 32"
    by (simp_all add: sgn_if)
  then have "sgn a * (\<bar>a\<bar> div 32) \<le> 0"
    by (rule mult_nonpos_nonneg)
  then show ?thesis
    by (simp add: cdiv_def TILE_SIZE_def)
qed

text \<open>A position on a tile of number 1 or more is not negative.\<close>

lemma tile_pos_nonneg:
  assumes "1 \<le> cdiv (float_to_int p) TILE_SIZE"
  shows "0 \<le> p"
proof (rule ccontr)
  assume "\<not> 0 \<le> p"
  then have "float_to_int p \<le> 0"
    by (simp add: float_to_int_def ceiling_le_iff)
  then have "cdiv (float_to_int p) TILE_SIZE \<le> 0"
    by (rule cdiv_nonpos)
  then show False
    using assms by simp
qed

lemma grid_le_iff:
  assumes "0 \<le> p"
  shows "cdiv (float_to_int p) TILE_SIZE \<le> s \<longleftrightarrow> p < of_int (TILE_SIZE * (s + 1))"
proof -
  have f: "float_to_int p = \<lfloor>p\<rfloor>" "0 \<le> \<lfloor>p\<rfloor>"
    using assms by (simp_all add: float_to_int_def)
  have "cdiv (float_to_int p) TILE_SIZE \<le> s \<longleftrightarrow> \<lfloor>p\<rfloor> div 32 \<le> s"
    using f by (simp add: cdiv_nonneg)
  also have "\<dots> \<longleftrightarrow> \<lfloor>p\<rfloor> < 32 * (s + 1)"
    by (rule div32_le)
  also have "\<dots> \<longleftrightarrow> p < of_int (32 * (s + 1))"
    by (rule floor_less_iff)
  finally show ?thesis
    by (simp add: TILE_SIZE_def)
qed

lemma grid_ge_iff:
  assumes "0 \<le> p"
  shows "k \<le> cdiv (float_to_int p) TILE_SIZE \<longleftrightarrow> of_int (TILE_SIZE * k) \<le> p"
proof -
  have f: "float_to_int p = \<lfloor>p\<rfloor>" "0 \<le> \<lfloor>p\<rfloor>"
    using assms by (simp_all add: float_to_int_def)
  have "k \<le> cdiv (float_to_int p) TILE_SIZE \<longleftrightarrow> k \<le> \<lfloor>p\<rfloor> div 32"
    using f by (simp add: cdiv_nonneg)
  also have "\<dots> \<longleftrightarrow> 32 * k \<le> \<lfloor>p\<rfloor>"
    by (rule div32_ge)
  also have "\<dots> \<longleftrightarrow> of_int (32 * k) \<le> p"
    by (rule le_floor_iff)
  finally show ?thesis
    by (simp add: TILE_SIZE_def)
qed

lemma grid_of_tile:
  assumes "0 \<le> s"
  shows "cdiv (float_to_int (of_int (s * TILE_SIZE))) TILE_SIZE = s"
proof -
  have "0 \<le> s * TILE_SIZE"
    using assms by (simp add: TILE_SIZE_def)
  then have "cdiv (s * TILE_SIZE) TILE_SIZE = s * TILE_SIZE div 32"
    by (rule cdiv_nonneg)
  also have "\<dots> = s"
    by (simp add: TILE_SIZE_def)
  finally show ?thesis
    unfolding float_to_int_of_int .
qed

lemma tile_edge_nonneg: "0 \<le> s \<Longrightarrow> (0::rat) \<le> of_int (TILE_SIZE * s)"
  by (simp add: TILE_SIZE_def)

subsection \<open>One step along the axis\<close>

text \<open>
  The step on the axis coordinate \<open>p\<close> and the direction \<open>d\<close>: \<open>q\<close> is the coordinate
  and \<open>d'\<close> the direction after it. First the tile test in terms of \<open>q\<close>.
\<close>

lemma lane_turn:
  fixes d d' :: int
  assumes "0 \<le> q"
    and "d' = (if cdiv (float_to_int q) TILE_SIZE \<le> start \<or>
                  start + len - 1 \<le> cdiv (float_to_int q) TILE_SIZE
               then d * (- 1) else d)"
  shows "d' = (if q < of_int (TILE_SIZE * (start + 1)) \<or> of_int (TILE_SIZE * (start + len - 1)) \<le> q
               then - d else d)"
proof -
  have t1: "(cdiv (float_to_int q) TILE_SIZE \<le> start) = (q < of_int (TILE_SIZE * (start + 1)))"
    by (rule grid_le_iff [OF assms(1)])
  have t2: "(start + len - 1 \<le> cdiv (float_to_int q) TILE_SIZE) =
      (of_int (TILE_SIZE * (start + len - 1)) \<le> q)"
    by (rule grid_ge_iff [OF assms(1)])
  have m: "d * (- 1) = - d"
    by simp
  show ?thesis
    using assms(2) unfolding t1 t2 m .
qed

lemma lane_step:
  assumes lane: "in_lane start len p d" and s: "0 \<le> start"
    and q: "q = p + 1 / 2 * of_int d"
    and d': "d' = (if cdiv (float_to_int q) TILE_SIZE \<le> start \<or>
                      start + len - 1 \<le> cdiv (float_to_int q) TILE_SIZE
                   then d * (- 1) else d)"
  shows "in_lane start len q d'"
proof -
  define A :: rat where "A = of_int (TILE_SIZE * start)"
  define B :: rat where "B = of_int (TILE_SIZE * (start + len))"
  have eL: "of_int (TILE_SIZE * (start + 1)) = A + 32"
    and eR: "of_int (TILE_SIZE * (start + len - 1)) = B - 32"
    by (simp_all add: A_def B_def TILE_SIZE_def algebra_simps)
  have l: "d = 1 \<or> d = - 1" "A \<le> p" "p < B" "d = - 1 \<longrightarrow> A + 1 / 2 \<le> p" "d = 1 \<longrightarrow> p < B - 1 / 2"
    using lane unfolding in_lane_def A_def [symmetric] B_def [symmetric] by blast+
  have A0: "0 \<le> A"
    unfolding A_def by (rule tile_edge_nonneg [OF s])
  have qd: "d = 1 \<longrightarrow> q = p + 1 / 2" "d = - 1 \<longrightarrow> q = p - 1 / 2"
    using q by auto
  have q0: "0 \<le> q"
    using l A0 qd by auto
  have turn: "d' = (if q < A + 32 \<or> B - 32 \<le> q then - d else d)"
    using lane_turn [OF q0 d'] unfolding eL eR .
  have "(d' = 1 \<or> d' = - 1) \<and> A \<le> q \<and> q < B \<and>
     (d' = - 1 \<longrightarrow> A + 1 / 2 \<le> q) \<and> (d' = 1 \<longrightarrow> q < B - 1 / 2)"
    using l qd turn by (auto split: if_splits)
  then show ?thesis
    unfolding in_lane_def A_def [symmetric] B_def [symmetric] .
qed

lemma corridor_step:
  assumes lane: "in_corridor start len p d" and s: "0 \<le> start"
    and q: "q = p + 1 / 2 * of_int d"
    and d': "d' = (if cdiv (float_to_int q) TILE_SIZE \<le> start \<or>
                      start + len - 1 \<le> cdiv (float_to_int q) TILE_SIZE
                   then d * (- 1) else d)"
  shows "in_corridor start len q d'"
proof -
  define A :: rat where "A = of_int (TILE_SIZE * start)"
  define B :: rat where "B = of_int (TILE_SIZE * (start + len))"
  have eL: "of_int (TILE_SIZE * (start + 1)) = A + 32"
    and eR: "of_int (TILE_SIZE * (start + len - 1)) = B - 32"
    by (simp_all add: A_def B_def TILE_SIZE_def algebra_simps)
  have l: "d = 1 \<or> d = - 1" "A + 32 - 1 / 2 \<le> p" "p < B - 32 + 1 / 2"
    "p < A + 32 \<longrightarrow> d = 1" "B - 32 \<le> p \<longrightarrow> d = - 1"
    using lane unfolding in_corridor_def eL eR by blast+
  have A0: "0 \<le> A"
    unfolding A_def by (rule tile_edge_nonneg [OF s])
  have qd: "d = 1 \<longrightarrow> q = p + 1 / 2" "d = - 1 \<longrightarrow> q = p - 1 / 2"
    using q by auto
  have q0: "0 \<le> q"
    using l A0 qd by auto
  have turn: "d' = (if q < A + 32 \<or> B - 32 \<le> q then - d else d)"
    using lane_turn [OF q0 d'] unfolding eL eR .
  have "(d' = 1 \<or> d' = - 1) \<and> A + 32 - 1 / 2 \<le> q \<and> q < B - 32 + 1 / 2 \<and>
     (q < A + 32 \<longrightarrow> d' = 1) \<and> (B - 32 \<le> q \<longrightarrow> d' = - 1)"
    using l qd turn by (auto split: if_splits)
  then show ?thesis
    unfolding in_corridor_def eL eR .
qed

lemma in_corridor_in_lane:
  assumes "in_corridor start len p d"
  shows "in_lane start len p d"
proof -
  define A :: rat where "A = of_int (TILE_SIZE * start)"
  define B :: rat where "B = of_int (TILE_SIZE * (start + len))"
  have eL: "of_int (TILE_SIZE * (start + 1)) = A + 32"
    and eR: "of_int (TILE_SIZE * (start + len - 1)) = B - 32"
    by (simp_all add: A_def B_def TILE_SIZE_def algebra_simps)
  have l: "d = 1 \<or> d = - 1" "A + 32 - 1 / 2 \<le> p" "p < B - 32 + 1 / 2"
    "p < A + 32 \<longrightarrow> d = 1" "B - 32 \<le> p \<longrightarrow> d = - 1"
    using assms unfolding in_corridor_def eL eR by blast+
  have "(d = 1 \<or> d = - 1) \<and> A \<le> p \<and> p < B \<and>
     (d = - 1 \<longrightarrow> A + 1 / 2 \<le> p) \<and> (d = 1 \<longrightarrow> p < B - 1 / 2)"
    using l by auto
  then show ?thesis
    unfolding in_lane_def A_def [symmetric] B_def [symmetric] .
qed

lemma lane_tile:
  assumes "in_lane start len p d" and "0 \<le> start"
  shows "start \<le> cdiv (float_to_int p) TILE_SIZE \<and> cdiv (float_to_int p) TILE_SIZE < start + len"
proof -
  have l: "of_int (TILE_SIZE * start) \<le> p" "p < of_int (TILE_SIZE * (start + len - 1 + 1))"
    using assms(1) by (simp_all add: in_lane_def)
  have p0: "0 \<le> p"
    using l(1) tile_edge_nonneg [OF assms(2)] by simp
  have a: "start \<le> cdiv (float_to_int p) TILE_SIZE"
    using l(1) by (rule grid_ge_iff [OF p0, THEN iffD2])
  have "cdiv (float_to_int p) TILE_SIZE \<le> start + len - 1"
    using l(2) by (rule grid_le_iff [OF p0, THEN iffD2])
  then show ?thesis
    using a by simp
qed

text \<open>Conversely, a position on a tile of the span is within the span's pixels.\<close>

lemma tile_lane:
  assumes "start \<le> cdiv (float_to_int p) TILE_SIZE" and "cdiv (float_to_int p) TILE_SIZE < start + len"
    and "1 \<le> start"
  shows "of_int (TILE_SIZE * start) \<le> p \<and> p < of_int (TILE_SIZE * (start + len))"
proof -
  have p0: "0 \<le> p"
    using assms(1,3) by (intro tile_pos_nonneg) simp
  have a: "of_int (TILE_SIZE * start) \<le> p"
    using assms(1) by (rule grid_ge_iff [OF p0, THEN iffD1])
  have "cdiv (float_to_int p) TILE_SIZE \<le> start + len - 1"
    using assms(2) by simp
  then have "p < of_int (TILE_SIZE * (start + len - 1 + 1))"
    by (rule grid_le_iff [OF p0, THEN iffD1])
  then show ?thesis
    using a by simp
qed


subsection \<open>One patrol step of an enemy\<close>

lemma patrol_tile_pos:
  "patrol_tile home e = cdiv (float_to_int (patrol_pos home e)) TILE_SIZE"
  by (simp add: patrol_tile_def patrol_pos_def gridX_of_def gridY_of_def)

lemma patrol_start_ge:
  "1 \<le> startX home \<Longrightarrow> 1 \<le> startY home \<Longrightarrow> 1 \<le> patrol_start home"
  by (simp add: patrol_start_def)

lemma Contains_axis:
  assumes "direction home \<noteq> NONE"
  shows "Contains home (gridX_of e) (gridY_of e) \<longleftrightarrow>
     cross_tile home e = cross_start home \<and>
     patrol_start home \<le> patrol_tile home e \<and>
     patrol_tile home e < patrol_start home + length_t home"
  using assms
  by (cases "direction home")
    (auto simp: Contains_def cross_tile_def cross_start_def patrol_tile_def patrol_start_def)

lemma MoveInTunnel_idle:
  "\<not> (e_alive e \<and> inTunnel e) \<Longrightarrow> Monster_MoveInTunnel home e = e"
  by (auto simp: Monster_MoveInTunnel_def)

lemma MoveInTunnel_flags:
  "e_alive (Monster_MoveInTunnel home e) = e_alive e"
  "inTunnel (Monster_MoveInTunnel home e) = inTunnel e"
  "homeTunnel (Monster_MoveInTunnel home e) = homeTunnel e"
  by (simp_all add: Monster_MoveInTunnel_def Let_def)

lemma MoveInTunnel_cross: "cross_tile home (Monster_MoveInTunnel home e) = cross_tile home e"
  by (simp add: Monster_MoveInTunnel_def Let_def cross_tile_def gridX_of_def gridY_of_def)

text \<open>
  A live patrolling enemy moves half a pixel along the axis in its direction, and
  then reverses its direction if the tile it has reached is the first tile of the tunnel or
  before it, or the last tile or after it.
\<close>

lemma MoveInTunnel_pos:
  assumes "e_alive e" "inTunnel e"
  shows "patrol_pos home (Monster_MoveInTunnel home e) =
     patrol_pos home e + 1 / 2 * of_int (e_direction e)"
  using assms by (simp add: Monster_MoveInTunnel_def Let_def Monster_speed_def patrol_pos_def)

lemma MoveInTunnel_direction:
  assumes "e_alive e" "inTunnel e"
  shows "e_direction (Monster_MoveInTunnel home e) =
     (if cdiv (float_to_int (patrol_pos home (Monster_MoveInTunnel home e))) TILE_SIZE
           \<le> patrol_start home \<or>
         patrol_start home + length_t home - 1
           \<le> cdiv (float_to_int (patrol_pos home (Monster_MoveInTunnel home e))) TILE_SIZE
      then e_direction e * (- 1) else e_direction e)"
  using assms
  by (simp add: Monster_MoveInTunnel_def Let_def Monster_speed_def patrol_pos_def patrol_start_def)

lemma patrol_inv_step:
  assumes "patrol_inv home e" and "0 \<le> patrol_start home"
  shows "patrol_inv home (Monster_MoveInTunnel home e)"
proof (cases "e_alive e \<and> inTunnel e")
  case False
  then show ?thesis
    using assms(1) by (simp add: MoveInTunnel_idle)
next
  case True
  have "in_lane (patrol_start home) (length_t home) (patrol_pos home e) (e_direction e)"
    using assms(1) by (simp add: patrol_inv_def)
  then have "in_lane (patrol_start home) (length_t home)
      (patrol_pos home (Monster_MoveInTunnel home e)) (e_direction (Monster_MoveInTunnel home e))"
    using assms(2)
  proof (rule lane_step)
    show "patrol_pos home (Monster_MoveInTunnel home e) =
        patrol_pos home e + 1 / 2 * of_int (e_direction e)"
      using True by (intro MoveInTunnel_pos) simp_all
    show "e_direction (Monster_MoveInTunnel home e) =
       (if cdiv (float_to_int (patrol_pos home (Monster_MoveInTunnel home e))) TILE_SIZE
             \<le> patrol_start home \<or>
           patrol_start home + length_t home - 1
             \<le> cdiv (float_to_int (patrol_pos home (Monster_MoveInTunnel home e))) TILE_SIZE
        then e_direction e * (- 1) else e_direction e)"
      using True by (intro MoveInTunnel_direction) simp_all
  qed
  then show ?thesis
    using assms(1) by (simp add: patrol_inv_def MoveInTunnel_cross)
qed

lemma between_ends_step:
  assumes "between_ends home e" and "0 \<le> patrol_start home"
  shows "between_ends home (Monster_MoveInTunnel home e)"
proof (cases "e_alive e \<and> inTunnel e")
  case False
  then show ?thesis
    using assms(1) by (simp add: MoveInTunnel_idle)
next
  case True
  have "in_corridor (patrol_start home) (length_t home) (patrol_pos home e) (e_direction e)"
    using assms(1) by (simp add: between_ends_def)
  then have "in_corridor (patrol_start home) (length_t home)
      (patrol_pos home (Monster_MoveInTunnel home e)) (e_direction (Monster_MoveInTunnel home e))"
    using assms(2)
  proof (rule corridor_step)
    show "patrol_pos home (Monster_MoveInTunnel home e) =
        patrol_pos home e + 1 / 2 * of_int (e_direction e)"
      using True by (intro MoveInTunnel_pos) simp_all
    show "e_direction (Monster_MoveInTunnel home e) =
       (if cdiv (float_to_int (patrol_pos home (Monster_MoveInTunnel home e))) TILE_SIZE
             \<le> patrol_start home \<or>
           patrol_start home + length_t home - 1
             \<le> cdiv (float_to_int (patrol_pos home (Monster_MoveInTunnel home e))) TILE_SIZE
        then e_direction e * (- 1) else e_direction e)"
      using True by (intro MoveInTunnel_direction) simp_all
  qed
  then show ?thesis
    by (simp add: between_ends_def)
qed

lemma patrol_inv_funpow:
  assumes "patrol_inv home e" and "0 \<le> patrol_start home"
  shows "patrol_inv home ((Monster_MoveInTunnel home ^^ n) e)"
  by (induction n) (simp_all add: assms patrol_inv_step)

lemma between_ends_funpow:
  assumes "between_ends home e" and "0 \<le> patrol_start home"
  shows "between_ends home ((Monster_MoveInTunnel home ^^ n) e)"
  by (induction n) (simp_all add: assms between_ends_step)

lemma flags_funpow:
  "e_alive ((Monster_MoveInTunnel home ^^ n) e) = e_alive e"
  "inTunnel ((Monster_MoveInTunnel home ^^ n) e) = inTunnel e"
  by (induction n) (simp_all add: MoveInTunnel_flags)

lemma patrol_inv_tile:
  assumes "patrol_inv home e" and "0 \<le> patrol_start home"
  shows "patrol_start home \<le> patrol_tile home e \<and>
     patrol_tile home e < patrol_start home + length_t home"
proof -
  have "in_lane (patrol_start home) (length_t home) (patrol_pos home e) (e_direction e)"
    using assms(1) by (simp add: patrol_inv_def)
  from lane_tile [OF this assms(2)] show ?thesis
    unfolding patrol_tile_pos .
qed

lemma patrol_inv_Contains:
  assumes "patrol_inv home e" and "0 \<le> patrol_start home" and "direction home \<noteq> NONE"
  shows "Contains home (gridX_of e) (gridY_of e)"
  using patrol_inv_tile [OF assms(1,2)] assms(1)
  by (simp add: Contains_axis [OF assms(3)] patrol_inv_def)

lemma patrol_inv_stays:
  assumes "patrol_inv home e" and "0 \<le> patrol_start home" and "direction home \<noteq> NONE"
  shows "Contains home (gridX_of ((Monster_MoveInTunnel home ^^ n) e))
           (gridY_of ((Monster_MoveInTunnel home ^^ n) e))"
  using patrol_inv_Contains [OF patrol_inv_funpow [OF assms(1,2)] assms(2,3)] .

text \<open>
  The invariant holds of every enemy on a tile of its home tunnel, with direction \<open>+1\<close>
  or \<open>-1\<close>, that is in neither outward zone.
\<close>

lemma in_span_patrol_inv:
  assumes "direction home \<noteq> NONE" and "1 \<le> patrol_start home"
    and "e_direction e = 1 \<or> e_direction e = - 1"
    and "Contains home (gridX_of e) (gridY_of e)"
    and "\<not> outward_edge home e"
  shows "patrol_inv home e"
proof -
  have c: "cross_tile home e = cross_start home"
    "patrol_start home \<le> cdiv (float_to_int (patrol_pos home e)) TILE_SIZE"
    "cdiv (float_to_int (patrol_pos home e)) TILE_SIZE < patrol_start home + length_t home"
    using assms(4) unfolding Contains_axis [OF assms(1)] patrol_tile_pos by blast+
  have span: "of_int (TILE_SIZE * patrol_start home) \<le> patrol_pos home e"
    "patrol_pos home e < of_int (TILE_SIZE * (patrol_start home + length_t home))"
    using tile_lane [OF c(2,3) assms(2)] by blast+
  have edge: "e_direction e = - 1 \<longrightarrow>
      of_int (TILE_SIZE * patrol_start home) + 1 / 2 \<le> patrol_pos home e"
    "e_direction e = 1 \<longrightarrow>
      patrol_pos home e < of_int (TILE_SIZE * (patrol_start home + length_t home)) - 1 / 2"
    using assms(5) unfolding outward_edge_def by auto
  show ?thesis
    unfolding patrol_inv_def in_lane_def using c(1) assms(3) span edge by blast
qed

text \<open>
  The two zones are exactly the states to leave out: from there the next step of a live
  patrolling enemy leaves the span.
\<close>

lemma outward_edge_leaves:
  assumes "direction home \<noteq> NONE" and "1 \<le> patrol_start home"
    and "e_alive e" "inTunnel e"
    and "Contains home (gridX_of e) (gridY_of e)"
    and "outward_edge home e"
  shows "\<not> Contains home (gridX_of (Monster_MoveInTunnel home e))
            (gridY_of (Monster_MoveInTunnel home e))"
proof -
  define A :: rat where "A = of_int (TILE_SIZE * patrol_start home)"
  define B :: rat where "B = of_int (TILE_SIZE * (patrol_start home + length_t home))"
  define p where "p = patrol_pos home e"
  define q where "q = patrol_pos home (Monster_MoveInTunnel home e)"
  have c: "patrol_start home \<le> cdiv (float_to_int p) TILE_SIZE"
    "cdiv (float_to_int p) TILE_SIZE < patrol_start home + length_t home"
    using assms(5) unfolding Contains_axis [OF assms(1)] patrol_tile_pos p_def by blast+
  have span: "A \<le> p" "p < B"
    using tile_lane [OF c assms(2)] unfolding A_def B_def by blast+
  have A32: "32 \<le> A"
  proof -
    have "(32::int) \<le> TILE_SIZE * patrol_start home"
      using assms(2) by (simp add: TILE_SIZE_def)
    then have "of_int 32 \<le> (of_int (TILE_SIZE * patrol_start home) :: rat)"
      by (rule of_int_le_iff [THEN iffD2])
    then show ?thesis by (simp add: A_def)
  qed
  have q: "q = p + 1 / 2 * of_int (e_direction e)"
    unfolding q_def p_def by (rule MoveInTunnel_pos [OF assms(3,4)])
  have zone: "(e_direction e = - 1 \<and> p < A + 1 / 2) \<or> (e_direction e = 1 \<and> B - 1 / 2 \<le> p)"
    using assms(6) unfolding outward_edge_def A_def B_def p_def .
  have q0: "0 \<le> q"
    using q zone span A32 by auto
  have out: "q < A \<or> B \<le> q"
    using q zone by auto
  have le: "cdiv (float_to_int q) TILE_SIZE \<le> patrol_start home - 1 \<longleftrightarrow> q < A"
    using grid_le_iff [OF q0, of "patrol_start home - 1"] by (simp add: A_def)
  have ge: "patrol_start home + length_t home \<le> cdiv (float_to_int q) TILE_SIZE \<longleftrightarrow> B \<le> q"
    using grid_ge_iff [OF q0, of "patrol_start home + length_t home"] by (simp add: B_def)
  have "\<not> (patrol_start home \<le> cdiv (float_to_int q) TILE_SIZE \<and>
     cdiv (float_to_int q) TILE_SIZE < patrol_start home + length_t home)"
    using out le ge by linarith
  then show ?thesis
    unfolding Contains_axis [OF assms(1)] patrol_tile_pos q_def by blast
qed


subsection \<open>Travel between the end tiles\<close>

lemma patrol_next:
  assumes "0 \<le> patrol_start home" and "e_alive e" and "inTunnel e" and "patrol_inv home e"
  shows "patrol_pos home (Monster_MoveInTunnel home e) =
      patrol_pos home e + 1 / 2 * of_int (e_direction e)"
    and "e_direction (Monster_MoveInTunnel home e) =
      (if patrol_tile home (Monster_MoveInTunnel home e) = patrol_start home \<or>
          patrol_tile home (Monster_MoveInTunnel home e) = patrol_start home + length_t home - 1
       then - e_direction e else e_direction e)"
    and "patrol_tile home (Monster_MoveInTunnel home e) = patrol_start home \<longleftrightarrow>
      patrol_pos home (Monster_MoveInTunnel home e) < of_int (TILE_SIZE * (patrol_start home + 1))"
    and "patrol_tile home (Monster_MoveInTunnel home e) = patrol_start home + length_t home - 1 \<longleftrightarrow>
      of_int (TILE_SIZE * (patrol_start home + length_t home - 1))
        \<le> patrol_pos home (Monster_MoveInTunnel home e)"
proof -
  define e1 where "e1 = Monster_MoveInTunnel home e"
  have inv1: "patrol_inv home e1"
    unfolding e1_def by (rule patrol_inv_step [OF assms(4,1)])
  have b: "patrol_start home \<le> patrol_tile home e1"
    "patrol_tile home e1 < patrol_start home + length_t home"
    using patrol_inv_tile [OF inv1 assms(1)] by blast+
  have "of_int (TILE_SIZE * patrol_start home) \<le> patrol_pos home e1"
    using inv1 by (simp add: patrol_inv_def in_lane_def)
  then have q0: "0 \<le> patrol_pos home e1"
    using tile_edge_nonneg [OF assms(1)] by simp
  have le: "patrol_tile home e1 \<le> patrol_start home \<longleftrightarrow>
      patrol_pos home e1 < of_int (TILE_SIZE * (patrol_start home + 1))"
    unfolding patrol_tile_pos by (rule grid_le_iff [OF q0])
  have ge: "patrol_start home + length_t home - 1 \<le> patrol_tile home e1 \<longleftrightarrow>
      of_int (TILE_SIZE * (patrol_start home + length_t home - 1)) \<le> patrol_pos home e1"
    unfolding patrol_tile_pos by (rule grid_ge_iff [OF q0])
  have d: "e_direction e1 =
     (if patrol_tile home e1 \<le> patrol_start home \<or>
         patrol_start home + length_t home - 1 \<le> patrol_tile home e1
      then e_direction e * (- 1) else e_direction e)"
    unfolding patrol_tile_pos e1_def by (rule MoveInTunnel_direction [OF assms(2,3)])
  show "patrol_pos home (Monster_MoveInTunnel home e) =
      patrol_pos home e + 1 / 2 * of_int (e_direction e)"
    by (rule MoveInTunnel_pos [OF assms(2,3)])
  show "e_direction (Monster_MoveInTunnel home e) =
      (if patrol_tile home (Monster_MoveInTunnel home e) = patrol_start home \<or>
          patrol_tile home (Monster_MoveInTunnel home e) = patrol_start home + length_t home - 1
       then - e_direction e else e_direction e)"
    using d b unfolding e1_def [symmetric] by auto
  show "patrol_tile home (Monster_MoveInTunnel home e) = patrol_start home \<longleftrightarrow>
      patrol_pos home (Monster_MoveInTunnel home e) < of_int (TILE_SIZE * (patrol_start home + 1))"
    using le b unfolding e1_def [symmetric] by auto
  show "patrol_tile home (Monster_MoveInTunnel home e) = patrol_start home + length_t home - 1 \<longleftrightarrow>
      of_int (TILE_SIZE * (patrol_start home + length_t home - 1))
        \<le> patrol_pos home (Monster_MoveInTunnel home e)"
    using ge b unfolding e1_def [symmetric] by auto
qed

lemma between_ends_patrol_inv:
  assumes "between_ends home e" and "cross_tile home e = cross_start home"
  shows "patrol_inv home e"
  using assms in_corridor_in_lane by (simp add: between_ends_def patrol_inv_def)

text \<open>
  Heading forwards in the corridor, the enemy reaches the last tile and turns there;
  \<open>k\<close> bounds the number of half pixels left to go.
\<close>

lemma reach_last:
  assumes s: "0 \<le> patrol_start home"
  shows "e_alive e \<Longrightarrow> inTunnel e \<Longrightarrow> between_ends home e \<Longrightarrow>
     cross_tile home e = cross_start home \<Longrightarrow> e_direction e = 1 \<Longrightarrow>
     of_int (TILE_SIZE * (patrol_start home + length_t home - 1)) - patrol_pos home e
       \<le> of_nat k / 2 \<Longrightarrow>
     \<exists>m. patrol_tile home ((Monster_MoveInTunnel home ^^ m) e) =
            patrol_start home + length_t home - 1 \<and>
         e_direction ((Monster_MoveInTunnel home ^^ m) e) = - 1"
proof (induction k arbitrary: e)
  case 0
  have "of_int (TILE_SIZE * (patrol_start home + length_t home - 1)) \<le> patrol_pos home e"
    using "0.prems"(6) by simp
  then have "e_direction e = - 1"
    using "0.prems"(3) by (simp add: between_ends_def in_corridor_def)
  then show ?case
    using "0.prems"(5) by simp
next
  case (Suc k)
  define e1 where "e1 = Monster_MoveInTunnel home e"
  define R :: rat where "R = of_int (TILE_SIZE * (patrol_start home + length_t home - 1))"
  define L :: rat where "L = of_int (TILE_SIZE * (patrol_start home + 1))"
  have inv: "patrol_inv home e"
    by (rule between_ends_patrol_inv [OF Suc.prems(3,4)])
  note N = patrol_next [OF s Suc.prems(1,2) inv, folded e1_def R_def L_def]
  have q: "patrol_pos home e1 = patrol_pos home e + 1 / 2"
    using N(1) Suc.prems(5) by simp
  have "L - 1 / 2 \<le> patrol_pos home e"
    using Suc.prems(3) unfolding between_ends_def in_corridor_def L_def by blast
  then have notfirst: "\<not> patrol_pos home e1 < L"
    using q by simp
  have e1: "e_alive e1" "inTunnel e1" "between_ends home e1" "cross_tile home e1 = cross_start home"
    unfolding e1_def
    using Suc.prems(1-4) between_ends_step [OF Suc.prems(3) s]
    by (simp_all add: MoveInTunnel_flags MoveInTunnel_cross)
  show ?case
  proof (cases "R \<le> patrol_pos home e1")
    case True
    then have "patrol_tile home e1 = patrol_start home + length_t home - 1" "e_direction e1 = - 1"
      using N(2,4) Suc.prems(5) by simp_all
    then have "patrol_tile home ((Monster_MoveInTunnel home ^^ 1) e) =
            patrol_start home + length_t home - 1 \<and>
         e_direction ((Monster_MoveInTunnel home ^^ 1) e) = - 1"
      by (simp add: e1_def)
    then show ?thesis
      by (rule exI)
  next
    case False
    then have d1: "e_direction e1 = 1"
      using N(2,3,4) notfirst Suc.prems(5) by simp
    have "R - patrol_pos home e1 \<le> of_nat k / 2"
      using Suc.prems(6) q unfolding R_def by (simp add: field_simps)
    then obtain m where "patrol_tile home ((Monster_MoveInTunnel home ^^ m) e1) =
            patrol_start home + length_t home - 1 \<and>
         e_direction ((Monster_MoveInTunnel home ^^ m) e1) = - 1"
      using Suc.IH [OF e1 d1] unfolding R_def by blast
    then have "patrol_tile home ((Monster_MoveInTunnel home ^^ Suc m) e) =
            patrol_start home + length_t home - 1 \<and>
         e_direction ((Monster_MoveInTunnel home ^^ Suc m) e) = - 1"
      by (simp add: e1_def funpow_swap1)
    then show ?thesis
      by (rule exI)
  qed
qed

text \<open>Heading backwards, it reaches the first tile and turns there.\<close>

lemma reach_first:
  assumes s: "0 \<le> patrol_start home"
  shows "e_alive e \<Longrightarrow> inTunnel e \<Longrightarrow> between_ends home e \<Longrightarrow>
     cross_tile home e = cross_start home \<Longrightarrow> e_direction e = - 1 \<Longrightarrow>
     patrol_pos home e - of_int (TILE_SIZE * (patrol_start home + 1)) < of_nat k / 2 \<Longrightarrow>
     \<exists>m. patrol_tile home ((Monster_MoveInTunnel home ^^ m) e) = patrol_start home \<and>
         e_direction ((Monster_MoveInTunnel home ^^ m) e) = 1"
proof (induction k arbitrary: e)
  case 0
  have "patrol_pos home e < of_int (TILE_SIZE * (patrol_start home + 1))"
    using "0.prems"(6) by simp
  then have "e_direction e = 1"
    using "0.prems"(3) by (simp add: between_ends_def in_corridor_def)
  then show ?case
    using "0.prems"(5) by simp
next
  case (Suc k)
  define e1 where "e1 = Monster_MoveInTunnel home e"
  define R :: rat where "R = of_int (TILE_SIZE * (patrol_start home + length_t home - 1))"
  define L :: rat where "L = of_int (TILE_SIZE * (patrol_start home + 1))"
  have inv: "patrol_inv home e"
    by (rule between_ends_patrol_inv [OF Suc.prems(3,4)])
  note N = patrol_next [OF s Suc.prems(1,2) inv, folded e1_def R_def L_def]
  have q: "patrol_pos home e1 = patrol_pos home e - 1 / 2"
    using N(1) Suc.prems(5) by simp
  have "patrol_pos home e < R + 1 / 2"
    using Suc.prems(3) unfolding between_ends_def in_corridor_def R_def by blast
  then have notlast: "\<not> R \<le> patrol_pos home e1"
    using q by simp
  have e1: "e_alive e1" "inTunnel e1" "between_ends home e1" "cross_tile home e1 = cross_start home"
    unfolding e1_def
    using Suc.prems(1-4) between_ends_step [OF Suc.prems(3) s]
    by (simp_all add: MoveInTunnel_flags MoveInTunnel_cross)
  show ?case
  proof (cases "patrol_pos home e1 < L")
    case True
    then have "patrol_tile home e1 = patrol_start home" "e_direction e1 = 1"
      using N(2,3) Suc.prems(5) by simp_all
    then have "patrol_tile home ((Monster_MoveInTunnel home ^^ 1) e) = patrol_start home \<and>
         e_direction ((Monster_MoveInTunnel home ^^ 1) e) = 1"
      by (simp add: e1_def)
    then show ?thesis
      by (rule exI)
  next
    case False
    then have d1: "e_direction e1 = - 1"
      using N(2,3,4) notlast Suc.prems(5) by simp
    have "patrol_pos home e1 - L < of_nat k / 2"
      using Suc.prems(6) q unfolding L_def by (simp add: field_simps)
    then obtain m where "patrol_tile home ((Monster_MoveInTunnel home ^^ m) e1) = patrol_start home \<and>
         e_direction ((Monster_MoveInTunnel home ^^ m) e1) = 1"
      using Suc.IH [OF e1 d1] unfolding L_def by blast
    then have "patrol_tile home ((Monster_MoveInTunnel home ^^ Suc m) e) = patrol_start home \<and>
         e_direction ((Monster_MoveInTunnel home ^^ Suc m) e) = 1"
      by (simp add: e1_def funpow_swap1)
    then show ?thesis
      by (rule exI)
  qed
qed

lemma half_bound: "\<exists>k. x \<le> of_nat k / 2 \<and> x < of_nat k / 2" for x :: rat
proof -
  obtain k where "2 * x < of_nat k"
    using reals_Archimedean2 by blast
  then have "x \<le> of_nat k / 2 \<and> x < of_nat k / 2"
    by simp
  then show ?thesis
    by (rule exI)
qed

lemma visits_last_then_first:
  assumes s: "0 \<le> patrol_start home" and e: "e_alive e" "inTunnel e"
    and b: "between_ends home e" and c: "cross_tile home e = cross_start home"
  shows "\<exists>m. patrol_tile home ((Monster_MoveInTunnel home ^^ m) e) =
            patrol_start home + length_t home - 1"
    and "\<exists>m. patrol_tile home ((Monster_MoveInTunnel home ^^ m) e) = patrol_start home"
proof -
  have fwd: "\<exists>m. patrol_tile home ((Monster_MoveInTunnel home ^^ m) u) =
            patrol_start home + length_t home - 1 \<and>
         e_direction ((Monster_MoveInTunnel home ^^ m) u) = - 1"
    if "e_alive u" "inTunnel u" "between_ends home u" "cross_tile home u = cross_start home"
      "e_direction u = 1" for u
  proof -
    obtain k where "of_int (TILE_SIZE * (patrol_start home + length_t home - 1)) - patrol_pos home u
        \<le> of_nat k / 2"
      using half_bound by blast
    then show ?thesis
      by (rule reach_last [OF s that])
  qed
  have bwd: "\<exists>m. patrol_tile home ((Monster_MoveInTunnel home ^^ m) u) = patrol_start home \<and>
         e_direction ((Monster_MoveInTunnel home ^^ m) u) = 1"
    if "e_alive u" "inTunnel u" "between_ends home u" "cross_tile home u = cross_start home"
      "e_direction u = - 1" for u
  proof -
    obtain k where "patrol_pos home u - of_int (TILE_SIZE * (patrol_start home + 1)) < of_nat k / 2"
      using half_bound by blast
    then show ?thesis
      by (rule reach_first [OF s that])
  qed
  have later: "e_alive ((Monster_MoveInTunnel home ^^ m) e)" "inTunnel ((Monster_MoveInTunnel home ^^ m) e)"
    "between_ends home ((Monster_MoveInTunnel home ^^ m) e)"
    "cross_tile home ((Monster_MoveInTunnel home ^^ m) e) = cross_start home" for m
    using e c between_ends_funpow [OF b s, of m] patrol_inv_funpow [OF between_ends_patrol_inv [OF b c] s, of m]
    by (simp_all add: flags_funpow patrol_inv_def)
  have dir: "e_direction e = 1 \<or> e_direction e = - 1"
    using b by (simp add: between_ends_def in_corridor_def)
  show "\<exists>m. patrol_tile home ((Monster_MoveInTunnel home ^^ m) e) =
            patrol_start home + length_t home - 1"
  proof (cases "e_direction e = 1")
    case True
    then show ?thesis
      using fwd [OF e b c] by blast
  next
    case False
    then have "e_direction e = - 1"
      using dir by simp
    then obtain m1 where m1: "e_direction ((Monster_MoveInTunnel home ^^ m1) e) = 1"
      using bwd [OF e b c] by blast
    obtain m2 where "patrol_tile home
        ((Monster_MoveInTunnel home ^^ m2) ((Monster_MoveInTunnel home ^^ m1) e)) =
            patrol_start home + length_t home - 1"
      using fwd [OF later m1] by blast
    then have "patrol_tile home ((Monster_MoveInTunnel home ^^ (m2 + m1)) e) =
            patrol_start home + length_t home - 1"
      by (simp add: funpow_add)
    then show ?thesis
      by (rule exI)
  qed
  show "\<exists>m. patrol_tile home ((Monster_MoveInTunnel home ^^ m) e) = patrol_start home"
  proof (cases "e_direction e = - 1")
    case True
    then show ?thesis
      using bwd [OF e b c] by blast
  next
    case False
    then have "e_direction e = 1"
      using dir by simp
    then obtain m1 where m1: "e_direction ((Monster_MoveInTunnel home ^^ m1) e) = - 1"
      using fwd [OF e b c] by blast
    obtain m2 where "patrol_tile home
        ((Monster_MoveInTunnel home ^^ m2) ((Monster_MoveInTunnel home ^^ m1) e)) = patrol_start home"
      using bwd [OF later m1] by blast
    then have "patrol_tile home ((Monster_MoveInTunnel home ^^ (m2 + m1)) e) = patrol_start home"
      by (simp add: funpow_add)
    then show ?thesis
      by (rule exI)
  qed
qed

text \<open>Again and again: after every number \<open>n\<close> of steps there is a later visit.\<close>

lemma visits_ends_forever:
  assumes s: "0 \<le> patrol_start home" and e: "e_alive e" "inTunnel e"
    and b: "between_ends home e" and c: "cross_tile home e = cross_start home"
  shows "(\<exists>m\<ge>n. patrol_tile home ((Monster_MoveInTunnel home ^^ m) e) = patrol_start home) \<and>
     (\<exists>m\<ge>n. patrol_tile home ((Monster_MoveInTunnel home ^^ m) e) =
        patrol_start home + length_t home - 1)"
proof -
  define u where "u = (Monster_MoveInTunnel home ^^ n) e"
  have u: "e_alive u" "inTunnel u" "between_ends home u" "cross_tile home u = cross_start home"
    unfolding u_def
    using e c between_ends_funpow [OF b s, of n] patrol_inv_funpow [OF between_ends_patrol_inv [OF b c] s, of n]
    by (simp_all add: flags_funpow patrol_inv_def)
  obtain m1 where "patrol_tile home ((Monster_MoveInTunnel home ^^ m1) u) = patrol_start home"
    using visits_last_then_first(2) [OF s u] by blast
  then have a: "n \<le> m1 + n \<and>
      patrol_tile home ((Monster_MoveInTunnel home ^^ (m1 + n)) e) = patrol_start home"
    by (simp add: u_def funpow_add)
  obtain m2 where "patrol_tile home ((Monster_MoveInTunnel home ^^ m2) u) =
      patrol_start home + length_t home - 1"
    using visits_last_then_first(1) [OF s u] by blast
  then have b: "n \<le> m2 + n \<and> patrol_tile home ((Monster_MoveInTunnel home ^^ (m2 + n)) e) =
      patrol_start home + length_t home - 1"
    by (simp add: u_def funpow_add)
  show ?thesis
    using a b by blast
qed


subsection \<open>The enemies of a fresh level\<close>

text \<open>The enemies of a fresh level are the ones the placement loops spawn.\<close>

lemma spawn_fields:
  "homeTunnel (spawn t i) = i \<and> e_alive (spawn t i) \<and> inTunnel (spawn t i) \<and>
   e_direction (spawn t i) = 1"
  by (simp add: spawn_def Monster_def)

lemma place_monsters_spawn:
  "e \<in> set (fst (place_monsters rnd k i ts ms)) \<Longrightarrow>
     e \<in> set ms \<or> (\<exists>j < length ts. e = spawn (ts ! j) (i + j))"
proof (induction ts arbitrary: k i ms)
  case Nil
  then show ?case by simp
next
  case (Cons t ts)
  define ms' where "ms' = (if rnd k mod 2 = 0 then ms @ [spawn t i] else ms)"
  have "place_monsters rnd k i (t # ts) ms = place_monsters rnd (k + 1) (i + 1) ts ms'"
    by (simp add: ms'_def spawn_def Let_def)
  then have "e \<in> set (fst (place_monsters rnd (k + 1) (i + 1) ts ms'))"
    using Cons.prems by simp
  then consider "e \<in> set ms'" | j where "j < length ts" "e = spawn (ts ! j) (i + 1 + j)"
    using Cons.IH by blast
  then show ?case
  proof cases
    case 1
    then have "e \<in> set ms \<or> e = spawn ((t # ts) ! 0) (i + 0)"
      by (auto simp: ms'_def split: if_splits)
    then show ?thesis by auto
  next
    case 2
    then have "Suc j < length (t # ts)" "e = spawn ((t # ts) ! Suc j) (i + Suc j)"
      by simp_all
    then show ?thesis by blast
  qed
qed

lemma place_dragons_spawn:
  "e \<in> set (fst (place_dragons rnd k i ts ms ds)) \<Longrightarrow>
     e \<in> set ds \<or> (\<exists>j < length ts. e = spawn (ts ! j) (i + j))"
proof (induction ts arbitrary: k i ds)
  case Nil
  then show ?case by simp
next
  case (Cons t ts)
  define ds' where "ds' = (if \<not> hasMonster i ms \<and> rnd k mod 2 = 0 then ds @ [spawn t i] else ds)"
  define k' where "k' = (if hasMonster i ms then k else k + 1)"
  have "place_dragons rnd k i (t # ts) ms ds = place_dragons rnd k' (i + 1) ts ms ds'"
    by (simp add: ds'_def k'_def spawn_def Let_def Dragon_def Monster_def)
  then have "e \<in> set (fst (place_dragons rnd k' (i + 1) ts ms ds'))"
    using Cons.prems by simp
  then consider "e \<in> set ds'" | j where "j < length ts" "e = spawn (ts ! j) (i + 1 + j)"
    using Cons.IH by blast
  then show ?case
  proof cases
    case 1
    then have "e \<in> set ds \<or> e = spawn ((t # ts) ! 0) (i + 0)"
      by (auto simp: ds'_def split: if_splits)
    then show ?thesis by auto
  next
    case 2
    then have "Suc j < length (t # ts)" "e = spawn ((t # ts) ! Suc j) (i + Suc j)"
      by simp_all
    then show ?thesis by blast
  qed
qed

lemma ResetLevel_level:
  assumes "ResetLevel rnd k w = (w', k')"
  shows "tunnels w' = map (\<lambda>t. t\<lparr>activated := False\<rparr>) (fst (CreateTunnels rnd k))"
    and "\<forall>e \<in> set (monsters w') \<union> set (dragons w').
           \<exists>j < length (tunnels w'). e = spawn (tunnels w' ! j) j"
proof -
  obtain created k1 where c: "CreateTunnels rnd k = (created, k1)"
    by (cases "CreateTunnels rnd k")
  define ts where "ts = map (\<lambda>t. t\<lparr>activated := False\<rparr>) created"
  obtain ms k2 where m: "place_monsters rnd k1 0 ts [] = (ms, k2)"
    by (cases "place_monsters rnd k1 0 ts []")
  obtain ds k3 where d: "place_dragons rnd k2 0 ts ms [] = (ds, k3)"
    by (cases "place_dragons rnd k2 0 ts ms []")
  have w': "tunnels w' = ts" "monsters w' = ms" "dragons w' = ds"
    using assms by (auto simp: ResetLevel_def c m d Let_def ts_def [symmetric])
  show "tunnels w' = map (\<lambda>t. t\<lparr>activated := False\<rparr>) (fst (CreateTunnels rnd k))"
    by (simp add: w' ts_def c)
  have "\<exists>j < length ts. e = spawn (ts ! j) j" if "e \<in> set ms" for e
    using place_monsters_spawn [of e rnd k1 0 ts "[]"] that m by simp
  moreover have "\<exists>j < length ts. e = spawn (ts ! j) j" if "e \<in> set ds" for e
    using place_dragons_spawn [of e rnd k2 0 ts ms "[]"] that d by simp
  ultimately show "\<forall>e \<in> set (monsters w') \<union> set (dragons w').
           \<exists>j < length (tunnels w'). e = spawn (tunnels w' ! j) j"
    unfolding w' by blast
qed

lemma ResetLevel_tunnels:
  assumes "ResetLevel rnd k w = (w', k')" and "t \<in> set (tunnels w')"
  shows "in_margin t \<and> 4 \<le> length_t t \<and> length_t t \<le> 8 \<and> \<not> activated t"
proof -
  obtain u where u: "u \<in> set (fst (CreateTunnels rnd k))" "t = u\<lparr>activated := False\<rparr>"
    using assms(2) ResetLevel_level(1) [OF assms(1)] by auto
  have "in_margin u \<and> 4 \<le> length_t u \<and> length_t u \<le> 8"
    using CreateTunnels_layout_ok [of rnd k] u(1) by (simp add: layout_ok_def)
  then show ?thesis
    by (simp add: u(2) in_margin_def)
qed

lemma ResetLevel_same_layout:
  assumes "ResetLevel rnd k w = (w', k')"
  shows "same_layout (tunnels w') (fst (CreateTunnels rnd k))"
  by (simp add: ResetLevel_level(1) [OF assms] same_layout_def geometry_def)

lemma spawn_horizontal:
  "direction t = HORIZONTAL \<Longrightarrow>
     spawn t i = Monster ((startX t + cdiv (length_t t) 2) * TILE_SIZE) (startY t * TILE_SIZE) i"
  by (simp add: spawn_def)

lemma spawn_vertical:
  "direction t \<noteq> HORIZONTAL \<Longrightarrow>
     spawn t i = Monster (startX t * TILE_SIZE) ((startY t + cdiv (length_t t) 2) * TILE_SIZE) i"
  by (simp add: spawn_def)

lemma grid_of_Monster:
  "gridX_of (Monster x y i) = cdiv (float_to_int (of_int x)) TILE_SIZE"
  "gridY_of (Monster x y i) = cdiv (float_to_int (of_int y)) TILE_SIZE"
  by (simp_all add: gridX_of_def gridY_of_def Monster_def)

lemma spawn_cross:
  assumes "0 \<le> startX t" and "0 \<le> startY t"
  shows "cross_tile t (spawn t i) = cross_start t"
proof (cases "direction t = HORIZONTAL")
  case True
  then show ?thesis
    unfolding cross_tile_def cross_start_def spawn_horizontal [OF True] grid_of_Monster
    using grid_of_tile [OF assms(2)] by simp
next
  case False
  then show ?thesis
    unfolding cross_tile_def cross_start_def spawn_vertical [OF False] grid_of_Monster
    using grid_of_tile [OF assms(1)] by simp
qed

lemma spawn_pos:
  "patrol_pos t (spawn t i) = of_int ((patrol_start t + cdiv (length_t t) 2) * TILE_SIZE)"
  by (simp add: patrol_pos_def patrol_start_def spawn_def Monster_def)

text \<open>An enemy placed by \<^verbatim>\<open>ResetLevel\<close> is in the corridor between the end tiles.\<close>

lemma spawn_between_ends:
  assumes "3 \<le> length_t t"
  shows "between_ends t (spawn t i)"
proof -
  define z where "z = (patrol_start t + cdiv (length_t t) 2) * TILE_SIZE"
  have c: "cdiv (length_t t) 2 = length_t t div 2"
    using assms by (simp add: cdiv_def)
  have m: "1 \<le> length_t t div 2" "length_t t div 2 < length_t t - 1"
    using assms by linarith+
  have "TILE_SIZE * (patrol_start t + 1) \<le> z" "z < TILE_SIZE * (patrol_start t + length_t t - 1)"
    using m by (simp_all add: z_def c TILE_SIZE_def)
  then have r: "(of_int (TILE_SIZE * (patrol_start t + 1)) :: rat) \<le> of_int z"
    "(of_int z :: rat) < of_int (TILE_SIZE * (patrol_start t + length_t t - 1))"
    by (simp_all only: of_int_le_iff of_int_less_iff)
  have d: "e_direction (spawn t i) = 1"
    by (simp add: spawn_def Monster_def)
  have p: "patrol_pos t (spawn t i) = of_int z"
    unfolding z_def by (rule spawn_pos)
  show ?thesis
    unfolding between_ends_def in_corridor_def p d using r by auto
qed

lemma patrol_inv_not_edge: "patrol_inv home e \<Longrightarrow> \<not> outward_edge home e"
  by (auto simp: patrol_inv_def in_lane_def outward_edge_def)

text \<open>
  Every enemy of a fresh level stands on a tile of its home tunnel, outside the outward
  zones and in the corridor; so do all the states its patrol steps lead to
  (\<open>patrol_inv_funpow\<close>, \<open>between_ends_funpow\<close>).
\<close>

lemma spawned_patrols:
  assumes "ResetLevel rnd k w = (w', k')" and "e \<in> set (monsters w') \<union> set (dragons w')"
  shows "homeTunnel e < length (tunnels w') \<and>
    direction (tunnels w' ! homeTunnel e) \<noteq> NONE \<and>
    1 \<le> startX (tunnels w' ! homeTunnel e) \<and> 1 \<le> startY (tunnels w' ! homeTunnel e) \<and>
    e_alive e \<and> inTunnel e \<and> e_direction e = 1 \<and>
    Contains (tunnels w' ! homeTunnel e) (gridX_of e) (gridY_of e) \<and>
    \<not> outward_edge (tunnels w' ! homeTunnel e) e \<and>
    between_ends (tunnels w' ! homeTunnel e) e"
proof -
  obtain j where j: "j < length (tunnels w')" "e = spawn (tunnels w' ! j) j"
    using ResetLevel_level(2) [OF assms(1)] assms(2) by blast
  define home where "home = tunnels w' ! j"
  have h: "homeTunnel e = j" "e_alive e" "inTunnel e" "e_direction e = 1"
    using spawn_fields [of "tunnels w' ! j" j] j(2) by simp_all
  have "home \<in> set (tunnels w')"
    using j(1) by (simp add: home_def)
  then have t: "in_margin home" "4 \<le> length_t home"
    using ResetLevel_tunnels [OF assms(1)] by blast+
  have g: "1 \<le> startX home" "1 \<le> startY home" "direction home \<noteq> NONE"
    using t(1) by (auto simp: in_margin_def)
  have s: "0 \<le> patrol_start home"
    using patrol_start_ge [OF g(1,2)] by simp
  have b: "between_ends home e"
    unfolding j(2) home_def [symmetric] using t(2) by (intro spawn_between_ends) simp
  have c: "cross_tile home e = cross_start home"
    unfolding j(2) home_def [symmetric] using g(1,2) by (intro spawn_cross) simp_all
  have inv: "patrol_inv home e"
    by (rule between_ends_patrol_inv [OF b c])
  have "Contains home (gridX_of e) (gridY_of e)"
    by (rule patrol_inv_Contains [OF inv s g(3)])
  then show ?thesis
    using h j(1) g b patrol_inv_not_edge [OF inv] by (simp add: home_def)
qed

lemma Dragon_MoveInTunnel_fun: "Dragon_MoveInTunnel home = Monster_MoveInTunnel home"
  by (rule ext) (simp add: MoveInTunnel_same)

text \<open>
  Claim C7. Take a live patrolling enemy on a tile of its home tunnel, with patrol
  direction \<open>+1\<close> or \<open>-1\<close>, the tunnel being horizontal or vertical and starting at
  tile 1 or beyond in both coordinates (as every generated tunnel does), and the enemy
  not within half a pixel of the span's outer edge while heading outwards (no enemy of
  the game is: see \<open>spawned_patrols\<close>). Then

  \<^item> after any number \<open>n\<close> of patrol steps, of \<^verbatim>\<open>Monster::MoveInTunnel\<close> or of
    \<^verbatim>\<open>Dragon::MoveInTunnel\<close> (they are the same function), the enemy's tile is a tile
    of its home tunnel;
  \<^item> every step moves the enemy by half a pixel along the tunnel in its direction, and
    reverses the direction exactly when the tile reached is the first or the last tile of
    the tunnel;
  \<^item> from a state in the corridor between the end tiles (\<open>between_ends\<close>, as every
    enemy of the game is), the enemy visits the first tile and the last tile of the tunnel
    again and again: it oscillates between the tunnel's endpoint tiles.
\<close>

theorem patrol_stays_in_home_tunnel:
  assumes "direction home \<noteq> NONE" and "1 \<le> startX home" and "1 \<le> startY home"
    and "e_alive e" and "inTunnel e"
    and "e_direction e = 1 \<or> e_direction e = - 1"
    and "Contains home (gridX_of e) (gridY_of e)"
    and "\<not> outward_edge home e"
  shows "(\<forall>n. Contains home (gridX_of ((Monster_MoveInTunnel home ^^ n) e))
                (gridY_of ((Monster_MoveInTunnel home ^^ n) e))) \<and>
    (\<forall>n. Contains home (gridX_of ((Dragon_MoveInTunnel home ^^ n) e))
                (gridY_of ((Dragon_MoveInTunnel home ^^ n) e))) \<and>
    Dragon_MoveInTunnel home = Monster_MoveInTunnel home \<and>
    (\<forall>n. patrol_pos home ((Monster_MoveInTunnel home ^^ Suc n) e) =
            patrol_pos home ((Monster_MoveInTunnel home ^^ n) e)
              + 1 / 2 * of_int (e_direction ((Monster_MoveInTunnel home ^^ n) e)) \<and>
          e_direction ((Monster_MoveInTunnel home ^^ Suc n) e) =
            (if patrol_tile home ((Monster_MoveInTunnel home ^^ Suc n) e) = patrol_start home \<or>
                patrol_tile home ((Monster_MoveInTunnel home ^^ Suc n) e)
                  = patrol_start home + length_t home - 1
             then - e_direction ((Monster_MoveInTunnel home ^^ n) e)
             else e_direction ((Monster_MoveInTunnel home ^^ n) e))) \<and>
    (between_ends home e \<longrightarrow>
       (\<forall>n. (\<exists>m\<ge>n. patrol_tile home ((Monster_MoveInTunnel home ^^ m) e) = patrol_start home) \<and>
            (\<exists>m\<ge>n. patrol_tile home ((Monster_MoveInTunnel home ^^ m) e)
                      = patrol_start home + length_t home - 1)))"
proof -
  have s1: "1 \<le> patrol_start home"
    by (rule patrol_start_ge [OF assms(2,3)])
  then have s: "0 \<le> patrol_start home"
    by simp
  have inv: "patrol_inv home e"
    by (rule in_span_patrol_inv [OF assms(1) s1 assms(6,7,8)])
  have stay: "\<forall>n. Contains home (gridX_of ((Monster_MoveInTunnel home ^^ n) e))
                (gridY_of ((Monster_MoveInTunnel home ^^ n) e))"
    using patrol_inv_stays [OF inv s assms(1)] by blast
  have step: "\<forall>n. patrol_pos home ((Monster_MoveInTunnel home ^^ Suc n) e) =
            patrol_pos home ((Monster_MoveInTunnel home ^^ n) e)
              + 1 / 2 * of_int (e_direction ((Monster_MoveInTunnel home ^^ n) e)) \<and>
          e_direction ((Monster_MoveInTunnel home ^^ Suc n) e) =
            (if patrol_tile home ((Monster_MoveInTunnel home ^^ Suc n) e) = patrol_start home \<or>
                patrol_tile home ((Monster_MoveInTunnel home ^^ Suc n) e)
                  = patrol_start home + length_t home - 1
             then - e_direction ((Monster_MoveInTunnel home ^^ n) e)
             else e_direction ((Monster_MoveInTunnel home ^^ n) e))"
  proof
    fix n
    define u where "u = (Monster_MoveInTunnel home ^^ n) e"
    have u: "e_alive u" "inTunnel u" "patrol_inv home u"
      unfolding u_def using assms(4,5) patrol_inv_funpow [OF inv s, of n]
      by (simp_all add: flags_funpow)
    have next_u: "(Monster_MoveInTunnel home ^^ Suc n) e = Monster_MoveInTunnel home u"
      by (simp add: u_def)
    show "patrol_pos home ((Monster_MoveInTunnel home ^^ Suc n) e) =
            patrol_pos home ((Monster_MoveInTunnel home ^^ n) e)
              + 1 / 2 * of_int (e_direction ((Monster_MoveInTunnel home ^^ n) e)) \<and>
          e_direction ((Monster_MoveInTunnel home ^^ Suc n) e) =
            (if patrol_tile home ((Monster_MoveInTunnel home ^^ Suc n) e) = patrol_start home \<or>
                patrol_tile home ((Monster_MoveInTunnel home ^^ Suc n) e)
                  = patrol_start home + length_t home - 1
             then - e_direction ((Monster_MoveInTunnel home ^^ n) e)
             else e_direction ((Monster_MoveInTunnel home ^^ n) e))"
      unfolding next_u u_def [symmetric]
      using patrol_next(1,2) [OF s u] by (intro conjI)
  qed
  have osc: "\<forall>n. (\<exists>m\<ge>n. patrol_tile home ((Monster_MoveInTunnel home ^^ m) e) = patrol_start home) \<and>
            (\<exists>m\<ge>n. patrol_tile home ((Monster_MoveInTunnel home ^^ m) e)
                      = patrol_start home + length_t home - 1)"
    if "between_ends home e"
  proof
    fix n
    have c: "cross_tile home e = cross_start home"
      using inv by (simp add: patrol_inv_def)
    show "(\<exists>m\<ge>n. patrol_tile home ((Monster_MoveInTunnel home ^^ m) e) = patrol_start home) \<and>
            (\<exists>m\<ge>n. patrol_tile home ((Monster_MoveInTunnel home ^^ m) e)
                      = patrol_start home + length_t home - 1)"
      by (rule visits_ends_forever [OF s assms(4,5) that c])
  qed
  show ?thesis
    unfolding Dragon_MoveInTunnel_fun using stay step osc by (intro conjI impI refl)
qed


lemma ResetLevel_sample:
  "monsters (fst (ResetLevel rnd_sample 0 (mkWorld None))) =
     [Monster 160 224 0, Monster 448 96 2, Monster 192 160 6] \<and>
   dragons (fst (ResetLevel rnd_sample 0 (mkWorld None))) =
     [Dragon 160 416 1, Dragon 672 160 4, Dragon 384 288 5] \<and>
   tunnels (fst (ResetLevel rnd_sample 0 (mkWorld None))) =
     [mkTunnel 3 7 4 HORIZONTAL, mkTunnel 3 13 5 HORIZONTAL, mkTunnel 12 3 5 HORIZONTAL,
      mkTunnel 15 5 4 HORIZONTAL, mkTunnel 21 3 4 VERTICAL, mkTunnel 12 7 4 VERTICAL,
      mkTunnel 6 3 4 VERTICAL, mkTunnel 21 9 7 VERTICAL]"
  by code_simp

theorem patrol_stays_in_home_tunnel_witness:
  "Monster 160 224 0 \<in> set (monsters (fst (ResetLevel rnd_sample 0 (mkWorld None)))) \<and>
   tunnels (fst (ResetLevel rnd_sample 0 (mkWorld None))) ! 0 = mkTunnel 3 7 4 HORIZONTAL \<and>
   e_alive (Monster 160 224 0) \<and> inTunnel (Monster 160 224 0) \<and>
   e_direction (Monster 160 224 0) = 1 \<and>
   Contains (mkTunnel 3 7 4 HORIZONTAL) (gridX_of (Monster 160 224 0)) (gridY_of (Monster 160 224 0)) \<and>
   \<not> outward_edge (mkTunnel 3 7 4 HORIZONTAL) (Monster 160 224 0) \<and>
   between_ends (mkTunnel 3 7 4 HORIZONTAL) (Monster 160 224 0) \<and>
   Contains (mkTunnel 3 7 4 HORIZONTAL)
     (gridX_of ((Monster_MoveInTunnel (mkTunnel 3 7 4 HORIZONTAL) ^^ 1000) (Monster 160 224 0)))
     (gridY_of ((Monster_MoveInTunnel (mkTunnel 3 7 4 HORIZONTAL) ^^ 1000) (Monster 160 224 0))) \<and>
   (\<exists>m\<ge>1000. patrol_tile (mkTunnel 3 7 4 HORIZONTAL)
       ((Monster_MoveInTunnel (mkTunnel 3 7 4 HORIZONTAL) ^^ m) (Monster 160 224 0)) = 3) \<and>
   (\<exists>m\<ge>1000. patrol_tile (mkTunnel 3 7 4 HORIZONTAL)
       ((Monster_MoveInTunnel (mkTunnel 3 7 4 HORIZONTAL) ^^ m) (Monster 160 224 0)) = 6) \<and>
   patrol_pos (mkTunnel 3 7 4 HORIZONTAL)
       (Monster_MoveInTunnel (mkTunnel 3 7 4 HORIZONTAL) (Monster 160 224 0)) = 160 + 1 / 2"
proof -
  define home where "home = mkTunnel 3 7 4 HORIZONTAL"
  define e where "e = Monster 160 224 0"
  have placed: "e \<in> set (monsters (fst (ResetLevel rnd_sample 0 (mkWorld None))))"
    "tunnels (fst (ResetLevel rnd_sample 0 (mkWorld None))) ! 0 = home"
    using ResetLevel_sample by (simp_all add: e_def home_def)
  have h: "direction home \<noteq> NONE" "1 \<le> startX home" "1 \<le> startY home"
    "patrol_start home = 3" "length_t home = 4"
    by (simp_all add: home_def mkTunnel_def patrol_start_def)
  have f: "e_alive e" "inTunnel e" "e_direction e = 1" "patrol_pos home e = 160"
    by (simp_all add: e_def Monster_def patrol_pos_def home_def mkTunnel_def)
  have c: "Contains home (gridX_of e) (gridY_of e)"
    unfolding home_def e_def by code_simp
  have o: "\<not> outward_edge home e"
    by (simp add: outward_edge_def f h TILE_SIZE_def)
  have b: "between_ends home e"
    by (simp add: between_ends_def in_corridor_def f h TILE_SIZE_def)
  have d: "e_direction e = 1 \<or> e_direction e = - 1"
    using f(3) by simp
  note T = patrol_stays_in_home_tunnel [OF h(1,2,3) f(1,2) d c o]
  have stay: "Contains home (gridX_of ((Monster_MoveInTunnel home ^^ 1000) e))
     (gridY_of ((Monster_MoveInTunnel home ^^ 1000) e))"
    using T by blast
  have osc: "(\<exists>m\<ge>1000. patrol_tile home ((Monster_MoveInTunnel home ^^ m) e) = 3) \<and>
     (\<exists>m\<ge>1000. patrol_tile home ((Monster_MoveInTunnel home ^^ m) e) = 6)"
    using T [THEN conjunct2, THEN conjunct2, THEN conjunct2, THEN conjunct2, THEN mp, OF b,
        THEN spec, of 1000]
    by (simp add: h)
  have "patrol_pos home ((Monster_MoveInTunnel home ^^ Suc 0) e) =
      patrol_pos home ((Monster_MoveInTunnel home ^^ 0) e)
        + 1 / 2 * of_int (e_direction ((Monster_MoveInTunnel home ^^ 0) e))"
    using T [THEN conjunct2, THEN conjunct2, THEN conjunct2, THEN conjunct1, THEN spec, of 0]
    by (rule conjunct1)
  then have move: "patrol_pos home (Monster_MoveInTunnel home e) = 160 + 1 / 2"
    by (simp add: f)
  show ?thesis
    using placed f(1,2,3) c o b stay osc [THEN conjunct1] osc [THEN conjunct2] move
    unfolding home_def [symmetric] e_def [symmetric] by (intro conjI)
qed


end
